theory Spec2Isabelle
  imports Complex_Main
begin

section \<open>NetMonitor: the polling scheduler, its history buffer and the ping repository\<close>

text \<open>
  The development embeds \<^verbatim>\<open>MonitorService\<close> (monitor.service.ts) and
  \<^verbatim>\<open>PingRepository\<close> (ping.repository.ts). A JavaScript number that carries a
  latency is a rational (in the jitter reference cases every intermediate value is a
  dyadic rational, which a double holds exactly); instants and intervals are whole
  milliseconds.
\<close>

subsection \<open>Data\<close>

datatype status = StatusOk | StatusError

text \<open>
  Modelled from the spec: the \<^verbatim>\<open>PingResult\<close> interface
  (models/ping-result.interface.ts) is not among the sources. Its three fields are the
  ones the service writes and the tests read: \<^verbatim>\<open>latencyMs: number | null\<close>,
  \<^verbatim>\<open>timestamp: Date\<close> (here the epoch milliseconds of the date) and
  \<^verbatim>\<open>status: 'ok' | 'error'\<close>.
\<close>

record PingResult =
  latencyMs :: "rat option"
  timestamp :: int
  status :: status

text \<open>What a promise of a transport can be rejected with; the code never inspects it.\<close>

datatype failure = Timeout | DnsFailure | ConnectionRefused | PermissionError | OtherFailure string

datatype 'a settled = Resolved 'a | Rejected failure

text \<open>What an observable that wraps one promise delivers: a value, or an error.\<close>

datatype 'a notification = Next 'a | Err failure

subsection \<open>The rxjs operators the service pipes a probe through\<close>

text \<open>
  \<^verbatim>\<open>from(promise)\<close> emits the resolved value or errors with the rejection;
  \<^verbatim>\<open>map(f)\<close> transforms a value and lets an error pass;
  \<^verbatim>\<open>catchError(h)\<close> lets a value pass and replaces an error by \<^verbatim>\<open>of(v)\<close>,
  where the handler \<open>h\<close> returns \<open>v\<close> together with the lines it wrote with
  \<^verbatim>\<open>console.error\<close>.
\<close>

fun from_promise :: "'a settled \<Rightarrow> 'a notification" where
  "from_promise (Resolved v) = Next v"
| "from_promise (Rejected e) = Err e"

fun map_op :: "('a \<Rightarrow> 'b) \<Rightarrow> 'a notification \<Rightarrow> 'b notification" where
  "map_op f (Next v) = Next (f v)"
| "map_op f (Err e) = Err e"

fun catchError :: "(failure \<Rightarrow> 'a \<times> string list) \<Rightarrow> 'a notification \<Rightarrow> 'a notification \<times> string list" where
  "catchError h (Next v) = (Next v, [])"
| "catchError h (Err e) = (Next (fst (h e)), snd (h e))"

subsection \<open>The history buffer\<close>

text \<open>
  \<^verbatim>\<open>Array.prototype.slice(start)\<close>: a negative start counts from the end and is
  clamped at 0, a start beyond the length gives the empty array.
\<close>

definition slice_from :: "int \<Rightarrow> 'a list \<Rightarrow> 'a list" where
  "slice_from start xs =
     (let len = int (length xs);
          k = (if start < 0 then max (len + start) 0 else min start len)
      in drop (nat k) xs)"

text \<open>monitor.service.ts line 53: \<^verbatim>\<open>[...current, result].slice(-50)\<close>.\<close>

definition keep_last_50 :: "'a list \<Rightarrow> 'a \<Rightarrow> 'a list" where
  "keep_last_50 current result = slice_from (- 50) (current @ [result])"

subsection \<open>One probe\<close>

text \<open>
  \<^verbatim>\<open>measureWebLatency\<close> (lines 92 to 115), from the moment the HEAD request
  settles: \<open>start_ms\<close> is \<^verbatim>\<open>Date.now()\<close> taken before the request, \<open>end_ms\<close> the
  clock when it settles. A rejection is logged and thrown again, which rejects the
  promise the async function returns. The response itself is never read.
\<close>

fun measureWebLatency :: "int \<Rightarrow> int \<Rightarrow> 'r settled \<Rightarrow> PingResult settled \<times> string list" where
  "measureWebLatency start_ms end_ms (Resolved response) =
     (Resolved \<lparr>latencyMs = Some (of_int (end_ms - start_ms)), timestamp = end_ms, status = StatusOk\<rparr>, [])"
| "measureWebLatency start_ms end_ms (Rejected e) =
     (Rejected e, [''Latency measurement failed''])"

text \<open>The value every \<^verbatim>\<open>catchError\<close> of the service substitutes (lines 48, 78, 86).\<close>

definition error_result :: "int \<Rightarrow> PingResult" where
  "error_result now = \<lparr>latencyMs = None, timestamp = now, status = StatusError\<rparr>"

text \<open>
  \<^verbatim>\<open>measureLatency\<close> (lines 68 to 90), from the moment the transport's promise
  settles. \<open>tauri\<close> is the capability check of line 69 made when the probe was issued.
  Both transports hand back a promise (\<^verbatim>\<open>TauriService.invoke\<close>, which is not among
  the sources, is awaited through \<^verbatim>\<open>from\<close>). On Tauri the promise resolves with \<^verbatim>\<open>{ latency_ms: number }\<close>, of which \<open>out\<close>
  carries the number; on the web path the payload of \<open>out\<close> stands for the unread
  response.
\<close>

definition measureLatency :: "bool \<Rightarrow> int \<Rightarrow> int \<Rightarrow> rat settled \<Rightarrow> PingResult notification \<times> string list" where
  "measureLatency tauri start_ms now out =
     (if tauri then
        catchError (\<lambda>err. (error_result now, [''Tauri ping error:'']))
          (map_op (\<lambda>latency_ms. \<lparr>latencyMs = Some latency_ms, timestamp = now, status = StatusOk\<rparr>)
             (from_promise out))
      else
        (let (promise, logged) = measureWebLatency start_ms now out;
             (n, logged') = catchError (\<lambda>err. (error_result now, [''Web/Capacitor ping error:'']))
                              (from_promise promise)
         in (n, logged @ logged')))"

subsection \<open>Statistics\<close>

text \<open>
  Modelled from the spec: the statistics computation of the home page (home.page.ts) is
  not among the sources, only its tests are. Section 4.4 of the specification: the
  jitter is taken over the latencies of the \<^verbatim>\<open>Ok\<close> measurements in time order;
  a running value \<open>J\<close> starts at 0 and every consecutive pair \<open>L[i-1], L[i]\<close> updates it
  by \<open>J += (|L[i] - L[i-1]| - J) / 16\<close>.
\<close>

definition ok_latencies :: "PingResult list \<Rightarrow> rat list" where
  "ok_latencies rs = [l. r \<leftarrow> rs, status r = StatusOk, Some l \<leftarrow> [latencyMs r]]"

fun jitter_from :: "rat \<Rightarrow> rat list \<Rightarrow> rat" where
  "jitter_from j (a # b # ls) = jitter_from (j + (\<bar>b - a\<bar> - j) / 16) (b # ls)"
| "jitter_from j ls = j"

definition jitter :: "PingResult list \<Rightarrow> rat" where
  "jitter rs = jitter_from 0 (ok_latencies rs)"

subsection \<open>The service, the runtime and the collaborators\<close>

datatype transport = TauriPing | CapacitorHead | FetchHead

text \<open>
  A probe in flight: the number of the transport request it waits for, the transport,
  and \<^verbatim>\<open>Date.now()\<close> at the moment it was issued.
\<close>

record probe =
  pid :: nat
  via :: transport
  started :: int

text \<open>
  What \<^verbatim>\<open>timer(0, interval).pipe(switchMap(...), catchError(...)).subscribe(...)\<close>
  leaves in the runtime: the timer's period and the milliseconds until its next emission
  (\<open>None\<close> once the timer has completed), the inner subscription \<^verbatim>\<open>switchMap\<close>
  currently holds, and whether the subscription has been closed.
\<close>

record subscription =
  period :: int
  due :: "nat option"
  inner :: "probe option"
  closed :: bool

text \<open>A row of the table \<^verbatim>\<open>pings\<close>: timestamp, latency_ms, success, target.\<close>

type_synonym row = "int \<times> rat option \<times> nat \<times> string"

text \<open>
  The state: the fields of \<^verbatim>\<open>MonitorService\<close> (the two
  \<^verbatim>\<open>BehaviorSubject\<close>s by their current value, \<open>pollingSubscription\<close> as a
  reference into the runtime's subscriptions), the subscriptions the runtime has created,
  the monitoring configuration of \<^verbatim>\<open>SettingsService\<close>, the platform
  (\<^verbatim>\<open>window.__TAURI__\<close>, \<^verbatim>\<open>Capacitor.isNativePlatform()\<close>, the clock), the
  requests made to the transports (each with the instant it was made and the target it
  was made to), the calls made to \<^verbatim>\<open>savePing\<close>, and the database
  with the console. \<^verbatim>\<open>DatabaseService\<close> is not among the sources: \<open>dbRejects\<close> says
  whether its \<^verbatim>\<open>execute\<close> rejects, and with what.
\<close>

record world =
  pollingSubscription :: "nat option"
  results :: "PingResult list"
  isMonitoring :: bool
  subscriptions :: "subscription list"
  settingsTarget :: string
  settingsInterval :: int
  hasTauri :: bool
  nativePlatform :: bool
  clock :: int
  requests :: "(int \<times> transport \<times> string) list"
  savePingCalls :: "(PingResult \<times> string) list"
  dbInitialized :: bool
  dbRejects :: "failure option"
  rows :: "row list"
  console :: "string list"

text \<open>The getters of lines 27 to 37 and the check of line 117.\<close>

definition pingTarget :: "world \<Rightarrow> string" where
  "pingTarget w = settingsTarget w"

definition pingIntervalMs :: "world \<Rightarrow> int" where
  "pingIntervalMs w = settingsInterval w * 1000"

definition isTauri :: "world \<Rightarrow> bool" where
  "isTauri w = hasTauri w"

subsection \<open>PingRepository\<close>

text \<open>
  Modelled from the spec: \<^verbatim>\<open>DatabaseService\<close> (database.service.ts) is not among the
  sources. Its \<^verbatim>\<open>execute\<close> either stores the row and resolves, or fails and stores
  nothing (section 4.5, storage failure); the field \<open>dbRejects\<close> decides which.
\<close>

definition execute :: "row \<Rightarrow> world \<Rightarrow> unit settled \<times> world" where
  "execute r w =
     (case dbRejects w of
        None \<Rightarrow> (Resolved (), w\<lparr>rows := rows w @ [r]\<rparr>)
      | Some err \<Rightarrow> (Rejected err, w))"

text \<open>
  \<^verbatim>\<open>savePing\<close> (ping.repository.ts): the promise the async function returns,
  and the state it leaves. The line \<^verbatim>\<open>console.error\<close> writes is recorded at the call.
\<close>

definition savePing :: "PingResult \<Rightarrow> string \<Rightarrow> world \<Rightarrow> unit settled \<times> world" where
  "savePing result target w =
     (if \<not> dbInitialized w then (Resolved (), w)
      else
        (case execute (timestamp result, latencyMs result,
                       (if status result = StatusOk then 1 else 0), target) w of
           (Resolved u, w') \<Rightarrow> (Resolved (), w')
         | (Rejected err, w') \<Rightarrow>
             (Resolved (), w'\<lparr>console := console w' @ [''Failed to persist ping:'']\<rparr>)))"

subsection \<open>MonitorService\<close>

text \<open>
  The callback of \<^verbatim>\<open>subscribe\<close> (lines 50 to 57). The promise of
  \<^verbatim>\<open>savePing\<close> is dropped.
\<close>

definition on_result :: "PingResult \<Rightarrow> world \<Rightarrow> world" where
  "on_result result w =
     (let current = results w;
          updated = keep_last_50 current result;
          w1 = w\<lparr>results := updated\<rparr>;
          target = pingTarget w1;
          w2 = w1\<lparr>savePingCalls := savePingCalls w1 @ [(result, target)]\<rparr>
      in snd (savePing result target w2))"

definition unsubscribe :: "nat \<Rightarrow> world \<Rightarrow> world" where
  "unsubscribe i w =
     w\<lparr>subscriptions := (subscriptions w)[i := (subscriptions w ! i)\<lparr>closed := True\<rparr>]\<rparr>"

definition stopMonitoring :: "world \<Rightarrow> world" where
  "stopMonitoring w =
     (let w1 = (case pollingSubscription w of
                  Some i \<Rightarrow> (unsubscribe i w)\<lparr>pollingSubscription := None\<rparr>
                | None \<Rightarrow> w)
      in w1\<lparr>isMonitoring := False\<rparr>)"

text \<open>
  \<^verbatim>\<open>startMonitoring\<close> (lines 39 to 58). The new subscription's timer is due at
  once; it fires when the runtime next runs its timers, after the call has returned.
\<close>

definition startMonitoring :: "int option \<Rightarrow> world \<Rightarrow> world" where
  "startMonitoring intervalMs w =
     (let w1 = stopMonitoring w;
          w2 = w1\<lparr>isMonitoring := True\<rparr>;
          interval = (case intervalMs of Some ms \<Rightarrow> ms | None \<Rightarrow> pingIntervalMs w2)
      in w2\<lparr>subscriptions := subscriptions w2 @
                [\<lparr>period = interval, due = Some 0, inner = None, closed = False\<rparr>],
            pollingSubscription := Some (length (subscriptions w2))\<rparr>)"

text \<open>
  The part of \<^verbatim>\<open>measureLatency\<close> that runs when \<^verbatim>\<open>switchMap\<close> calls it:
  the capability checks, the read of the target, the request to the transport.
\<close>

definition issue_probe :: "world \<Rightarrow> probe \<times> world" where
  "issue_probe w =
     (let v = (if isTauri w then TauriPing
               else if nativePlatform w then CapacitorHead else FetchHead);
          p = \<lparr>pid = length (requests w), via = v, started = clock w\<rparr>
      in (p, w\<lparr>requests := requests w @ [(clock w, v, pingTarget w)]\<rparr>))"

text \<open>
  The delay the host's \<^verbatim>\<open>setInterval\<close>, on which the rxjs scheduler runs, really
  waits. The delay is a 32-bit signed integer: one that is below 1 or above 2147483647
  is replaced by 1 millisecond (so Node and the fake timers of the tests; a browser wraps
  it into 32 bits, which from 2147483648 to 4294967295 is negative and waits no longer
  either). The statements below take a period that fits: they are about periods from 1 to
  2147483647.
\<close>

definition host_delay :: "int \<Rightarrow> nat" where
  "host_delay ms = (if ms < 1 \<or> 2147483647 < ms then 1 else nat ms)"

text \<open>
  The timer of subscription \<open>i\<close> emits: rxjs schedules the next emission one period
  later, as the host counts it, when the period is not negative and completes the timer
  otherwise; \<^verbatim>\<open>switchMap\<close> drops the inner subscription it holds and subscribes
  to the new probe.
\<close>

definition timer_fires :: "nat \<Rightarrow> world \<Rightarrow> world" where
  "timer_fires i w =
     (let s = subscriptions w ! i;
          (p, w1) = issue_probe w;
          s' = s\<lparr>due := (if 0 \<le> period s then Some (host_delay (period s)) else None),
                 inner := Some p\<rparr>
      in w1\<lparr>subscriptions := (subscriptions w1)[i := s']\<rparr>)"

definition is_due :: "nat \<Rightarrow> world \<Rightarrow> bool" where
  "is_due i w =
     (i < length (subscriptions w) \<and> \<not> closed (subscriptions w ! i) \<and>
      due (subscriptions w ! i) = Some 0)"

definition fire_due :: "world \<Rightarrow> world" where
  "fire_due w =
     foldl (\<lambda>w i. if is_due i w then timer_fires i w else w) w [0..<length (subscriptions w)]"

definition elapse1 :: "world \<Rightarrow> world" where
  "elapse1 w =
     w\<lparr>clock := clock w + 1,
       subscriptions := map (\<lambda>s. s\<lparr>due := map_option (\<lambda>d. d - 1) (due s)\<rparr>) (subscriptions w)\<rparr>"

text \<open>Time passes, one millisecond after the other; the timers that are due fire.\<close>

fun advance :: "nat \<Rightarrow> world \<Rightarrow> world" where
  "advance 0 w = w"
| "advance (Suc n) w = advance n (fire_due (elapse1 w))"

text \<open>
  The promise of transport request \<open>n\<close> settles. It is delivered to the open subscription
  whose inner subscription waits for it, if there is one.
\<close>

fun waiting_for :: "nat \<Rightarrow> subscription list \<Rightarrow> nat \<Rightarrow> (nat \<times> probe) option" where
  "waiting_for n [] i = None"
| "waiting_for n (s # ss) i =
     (case inner s of
        Some p \<Rightarrow> if \<not> closed s \<and> pid p = n then Some (i, p) else waiting_for n ss (Suc i)
      | None \<Rightarrow> waiting_for n ss (Suc i))"

text \<open>
  The rest of the pipeline of lines 44 to 57 for one settled probe. An error that
  reached the outer \<^verbatim>\<open>catchError\<close> would be replaced by an error result, after
  which the stream completes.
\<close>

definition deliver :: "nat \<Rightarrow> probe \<Rightarrow> rat settled \<Rightarrow> world \<Rightarrow> world" where
  "deliver i p out w =
     (let (n, logged) = measureLatency (via p = TauriPing) (started p) (clock w) out;
          w1 = w\<lparr>console := console w @ logged,
                 subscriptions := (subscriptions w)[i := (subscriptions w ! i)\<lparr>inner := None\<rparr>]\<rparr>
      in case n of
           Next result \<Rightarrow> on_result result w1
         | Err e \<Rightarrow>
             (let w2 = w1\<lparr>console := console w1 @ [''Monitoring error:'']\<rparr>;
                  w3 = on_result (error_result (clock w)) w2
              in unsubscribe i w3))"

definition settle :: "nat \<Rightarrow> rat settled \<Rightarrow> world \<Rightarrow> world" where
  "settle n out w =
     (case waiting_for n (subscriptions w) 0 of
        None \<Rightarrow> w
      | Some (i, p) \<Rightarrow> deliver i p out w)"

text \<open>
  \<^verbatim>\<open>SettingsService.updateMonitoringConfig\<close> with a partial configuration, once
  the setting has been stored.
\<close>

definition updateMonitoringConfig :: "string option \<Rightarrow> int option \<Rightarrow> world \<Rightarrow> world" where
  "updateMonitoringConfig target interval w =
     w\<lparr>settingsTarget := (case target of Some t \<Rightarrow> t | None \<Rightarrow> settingsTarget w),
       settingsInterval := (case interval of Some i \<Rightarrow> i | None \<Rightarrow> settingsInterval w)\<rparr>"

subsection \<open>Runs\<close>

datatype event =
    Start "int option"
  | Stop
  | Advance nat
  | Settle nat "rat settled"
  | UpdateConfig "string option" "int option"

fun step :: "event \<Rightarrow> world \<Rightarrow> world" where
  "step (Start intervalMs) w = startMonitoring intervalMs w"
| "step Stop w = stopMonitoring w"
| "step (Advance ms) w = advance ms (fire_due w)"
| "step (Settle n out) w = settle n out w"
| "step (UpdateConfig target interval) w = updateMonitoringConfig target interval w"

definition run :: "event list \<Rightarrow> world \<Rightarrow> world" where
  "run evs w = foldl (\<lambda>w e. step e w) w evs"

text \<open>
  A service just constructed, with \<^verbatim>\<open>DEFAULT_SETTINGS\<close> (settings.interface.ts),
  on Tauri, at time 0, with an initialised database that works or rejects.
\<close>

definition initial_world :: "failure option \<Rightarrow> world" where
  "initial_world rejects =
     \<lparr>pollingSubscription = None, results = [], isMonitoring = False, subscriptions = [],
      settingsTarget = ''8.8.8.8'', settingsInterval = 5,
      hasTauri = True, nativePlatform = False, clock = 0,
      requests = [], savePingCalls = [],
      dbInitialized = True, dbRejects = rejects, rows = [], console = []\<rparr>"

subsection \<open>Notions for the statements and the proofs\<close>

text \<open>The transport \<^verbatim>\<open>measureLatency\<close> chooses on a platform.\<close>

definition transport_of :: "world \<Rightarrow> transport" where
  "transport_of w = (if hasTauri w then TauriPing else if nativePlatform w then CapacitorHead else FetchHead)"

text \<open>The measurement a probe yields when its transport settles with \<open>out\<close> at instant \<open>now\<close>.\<close>

definition measured :: "probe \<Rightarrow> int \<Rightarrow> rat settled \<Rightarrow> PingResult" where
  "measured p now out =
     (case out of
        Resolved l \<Rightarrow> \<lparr>latencyMs = Some (if via p = TauriPing then l else of_int (now - started p)),
                       timestamp = now, status = StatusOk\<rparr>
      | Rejected e \<Rightarrow> error_result now)"

text \<open>Subscription \<open>j\<close> is open and it is the only one that is.\<close>

definition running :: "nat \<Rightarrow> world \<Rightarrow> bool" where
  "running j w = (j < length (subscriptions w) \<and>
     (\<forall>i < length (subscriptions w). (\<not> closed (subscriptions w ! i)) = (i = j)))"

text \<open>The row \<^verbatim>\<open>savePing\<close> hands to \<^verbatim>\<open>execute\<close>.\<close>

definition db_row :: "PingResult \<Rightarrow> string \<Rightarrow> row" where
  "db_row r t = (timestamp r, latencyMs r, (if status r = StatusOk then 1 else 0), t)"

text \<open>\<open>k\<close> milliseconds pass and no timer fires.\<close>

definition elapse :: "nat \<Rightarrow> world \<Rightarrow> world" where
  "elapse k w =
     w\<lparr>clock := clock w + int k,
       subscriptions := map (\<lambda>s. s\<lparr>due := map_option (\<lambda>d. d - k) (due s)\<rparr>) (subscriptions w)\<rparr>"

text \<open>
  The subscriptions that are open are exactly the one the service references: the
  invariant of every state a service can reach.
\<close>

definition well_formed :: "world \<Rightarrow> bool" where
  "well_formed w =
     (\<forall>i < length (subscriptions w).
        (\<not> closed (subscriptions w ! i)) = (pollingSubscription w = Some i))"

text \<open>No polling loop is active.\<close>

definition all_closed :: "world \<Rightarrow> bool" where
  "all_closed w = (\<forall>i < length (subscriptions w). closed (subscriptions w ! i))"

text \<open>
  How many times a timer that is due in \<open>d\<close> milliseconds and has period \<open>P\<close> fires
  within \<open>T\<close> milliseconds.
\<close>

definition tick_count :: "nat \<Rightarrow> nat \<Rightarrow> nat \<Rightarrow> nat" where
  "tick_count d P T = (if d \<le> T then (T - d) div P + 1 else 0)"

text \<open>The state \<open>w\<close> with the database and the console of \<open>d\<close>.\<close>

definition with_storage :: "world \<Rightarrow> world \<Rightarrow> world" where
  "with_storage d w =
     w\<lparr>dbInitialized := dbInitialized d, dbRejects := dbRejects d, rows := rows d,
       console := console d\<rparr>"

text \<open>Subscription \<open>j\<close> is the open one, with period \<open>P\<close> and \<open>d\<close> milliseconds to its next tick.\<close>

definition armed :: "nat \<Rightarrow> nat \<Rightarrow> nat \<Rightarrow> world \<Rightarrow> bool" where
  "armed j P d w =
     (running j w \<and> period (subscriptions w ! j) = int P \<and> due (subscriptions w ! j) = Some d)"

section \<open>Properties\<close>

subsection \<open>The operations, field by field\<close>

lemma measureLatency_measured:
  "fst (measureLatency (via p = TauriPing) (started p) now out) = Next (measured p now out)"
  by (cases out) (simp_all add: measureLatency_def measured_def)

lemma savePing_eq:
  "savePing r t w =
     (Resolved (),
      w\<lparr>rows := (if dbInitialized w \<and> dbRejects w = None then rows w @ [db_row r t] else rows w),
        console := (if dbInitialized w \<and> dbRejects w \<noteq> None
                    then console w @ [''Failed to persist ping:''] else console w)\<rparr>)"
  by (simp add: savePing_def execute_def db_row_def split: option.splits)

lemma on_result_eq:
  "on_result r w =
     w\<lparr>results := keep_last_50 (results w) r,
       savePingCalls := savePingCalls w @ [(r, settingsTarget w)],
       rows := (if dbInitialized w \<and> dbRejects w = None then rows w @ [db_row r (settingsTarget w)] else rows w),
       console := (if dbInitialized w \<and> dbRejects w \<noteq> None
                    then console w @ [''Failed to persist ping:''] else console w)\<rparr>"
  by (simp add: on_result_def savePing_eq pingTarget_def Let_def)

lemma timer_fires_eq:
  "timer_fires i w =
     w\<lparr>requests := requests w @ [(clock w, transport_of w, settingsTarget w)],
       subscriptions := (subscriptions w)[i := (subscriptions w ! i)
          \<lparr>due := (if 0 \<le> period (subscriptions w ! i) then Some (host_delay (period (subscriptions w ! i))) else None),
           inner := Some \<lparr>pid = length (requests w), via = transport_of w, started = clock w\<rparr>\<rparr>]\<rparr>"
  by (simp add: timer_fires_def issue_probe_def Let_def transport_of_def isTauri_def pingTarget_def)

lemma deliver_eq:
  "deliver i p out w =
     on_result (measured p (clock w) out)
       (w\<lparr>console := console w @ snd (measureLatency (via p = TauriPing) (started p) (clock w) out),
          subscriptions := (subscriptions w)[i := (subscriptions w ! i)\<lparr>inner := None\<rparr>]\<rparr>)"
proof -
  obtain n l where eq: "measureLatency (via p = TauriPing) (started p) (clock w) out = (n, l)"
    by (cases "measureLatency (via p = TauriPing) (started p) (clock w) out")
  with measureLatency_measured [of p "clock w" out]
  have "n = Next (measured p (clock w) out)" by simp
  with eq show ?thesis by (simp add: deliver_def)
qed

lemma foldl_fire_closed:
  "\<forall>i \<in> set xs. i < length (subscriptions w) \<longrightarrow> closed (subscriptions w ! i) \<Longrightarrow>
   foldl (\<lambda>w i. if is_due i w then timer_fires i w else w) w xs = w"
  by (induction xs) (auto simp: is_due_def)

lemma fire_due_running:
  assumes "running j w"
  shows "fire_due w = (if due (subscriptions w ! j) = Some 0 then timer_fires j w else w)"
proof -
  let ?F = "\<lambda>w i. if is_due i w then timer_fires i w else w"
  let ?n = "length (subscriptions w)"
  from assms have j: "j < ?n" and others: "\<forall>i < ?n. i \<noteq> j \<longrightarrow> closed (subscriptions w ! i)"
    and opn: "\<not> closed (subscriptions w ! j)"
    by (auto simp: running_def)
  have split: "[0..<?n] = [0..<j] @ j # [Suc j..<?n]"
    using j by (metis le_add1 less_imp_add_positive upt_add_eq_append upt_conv_Cons le0)
  have before: "foldl ?F w [0..<j] = w"
    using others j by (intro foldl_fire_closed) auto
  let ?w' = "?F w j"
  have len: "length (subscriptions ?w') = ?n"
    by (simp add: timer_fires_eq)
  have "\<forall>i \<in> set [Suc j..<?n]. i < length (subscriptions ?w') \<longrightarrow> closed (subscriptions ?w' ! i)"
    using others by (auto simp: timer_fires_eq)
  then have after: "foldl ?F ?w' [Suc j..<?n] = ?w'"
    by (rule foldl_fire_closed)
  have "fire_due w = foldl ?F (?F (foldl ?F w [0..<j]) j) [Suc j..<?n]"
    unfolding fire_due_def by (subst split) simp
  also have "\<dots> = ?w'" by (simp only: before after)
  also have "\<dots> = (if due (subscriptions w ! j) = Some 0 then timer_fires j w else w)"
    using j opn by (simp add: is_due_def)
  finally show ?thesis .
qed

lemma fire_due_all_closed:
  "\<forall>i < length (subscriptions w). closed (subscriptions w ! i) \<Longrightarrow> fire_due w = w"
  unfolding fire_due_def by (rule foldl_fire_closed) simp

lemma running_timer_fires: "running j w \<Longrightarrow> running j (timer_fires j w)"
  by (auto simp: running_def timer_fires_eq nth_list_update)

lemma running_elapse1: "running j w \<Longrightarrow> running j (elapse1 w)"
  by (simp add: running_def elapse1_def)

lemma running_fire_due: "running j w \<Longrightarrow> running j (fire_due w)"
  by (simp add: fire_due_running running_timer_fires)

lemma elapse1_elapse: "elapse1 w = elapse 1 w"
  by (simp add: elapse1_def elapse_def)

lemma elapse_0: "elapse 0 w = w"
  by (simp add: elapse_def option.map_ident)

lemma elapse_elapse: "elapse a (elapse b w) = elapse (b + a) w"
  by (simp add: elapse_def option.map_comp comp_def add.assoc)

lemma running_elapse: "running j w \<Longrightarrow> running j (elapse k w)"
  by (simp add: running_def elapse_def)

lemma advance_add: "advance (a + b) w = advance b (advance a w)"
  by (induction a arbitrary: w) simp_all

lemma advance_idle:
  "running j w \<Longrightarrow> due (subscriptions w ! j) = Some d \<Longrightarrow> k < d \<Longrightarrow> advance k w = elapse k w"
proof (induction k arbitrary: w d)
  case 0
  then show ?case by (simp add: elapse_0)
next
  case (Suc k)
  let ?w1 = "elapse1 w"
  from Suc.prems have j: "j < length (subscriptions w)" by (simp add: running_def)
  have r1: "running j ?w1" using Suc.prems(1) by (rule running_elapse1)
  have d1: "due (subscriptions ?w1 ! j) = Some (d - 1)"
    using Suc.prems(2) j by (simp add: elapse1_def)
  have "fire_due ?w1 = ?w1"
    using Suc.prems(3) d1 by (simp add: fire_due_running [OF r1])
  moreover have "advance k ?w1 = elapse k ?w1"
    using r1 d1 Suc.prems(3) by (intro Suc.IH [where d = "d - 1"]) auto
  ultimately show ?case by (simp add: elapse1_elapse elapse_elapse)
qed

lemma advance_all_closed:
  "\<forall>i < length (subscriptions w). closed (subscriptions w ! i) \<Longrightarrow> advance k w = elapse k w"
proof (induction k arbitrary: w)
  case 0
  then show ?case by (simp add: elapse_0)
next
  case (Suc k)
  have c1: "\<forall>i < length (subscriptions (elapse1 w)). closed (subscriptions (elapse1 w) ! i)"
    using Suc.prems by (simp add: elapse1_def)
  then have "fire_due (elapse1 w) = elapse1 w" by (rule fire_due_all_closed)
  with Suc.IH [OF c1] show ?case by (simp add: elapse1_elapse elapse_elapse)
qed

lemma requests_advance:
  "running j w \<Longrightarrow> due (subscriptions w ! j) = Some d \<Longrightarrow> 0 < d \<Longrightarrow>
   period (subscriptions w ! j) = int P \<Longrightarrow> 0 < P \<Longrightarrow> P \<le> 2147483647 \<Longrightarrow>
   requests (advance T w) =
     requests w @ map (\<lambda>k. (clock w + int d + int k * int P, transport_of w, settingsTarget w))
                    [0..<tick_count d P T]"
proof (induction T arbitrary: w d)
  case 0
  then show ?case by (simp add: tick_count_def)
next
  case (Suc T)
  let ?w1 = "elapse1 w"
  from Suc.prems have j: "j < length (subscriptions w)" by (simp add: running_def)
  have r1: "running j ?w1" using Suc.prems(1) by (rule running_elapse1)
  have d1: "due (subscriptions ?w1 ! j) = Some (d - 1)"
    using Suc.prems(2) j by (simp add: elapse1_def)
  have p1: "period (subscriptions ?w1 ! j) = int P"
    using Suc.prems(4) j by (simp add: elapse1_def)
  show ?case
  proof (cases "d = 1")
    case True
    let ?w2 = "timer_fires j ?w1"
    have f: "fire_due ?w1 = ?w2" using d1 True by (simp add: fire_due_running [OF r1])
    have r2: "running j ?w2" using r1 by (rule running_timer_fires)
    have d2: "due (subscriptions ?w2 ! j) = Some P"
      using j p1 Suc.prems(5,6) by (simp add: timer_fires_eq elapse1_def host_delay_def)
    have p2: "period (subscriptions ?w2 ! j) = int P"
      using j p1 by (simp add: timer_fires_eq elapse1_def)
    have IH: "requests (advance T ?w2) =
        requests ?w2 @ map (\<lambda>k. (clock ?w2 + int P + int k * int P, transport_of ?w2, settingsTarget ?w2))
                        [0..<tick_count P P T]"
      by (rule Suc.IH [OF r2 d2 Suc.prems(5) p2 Suc.prems(5,6)])
    have tc: "tick_count d P (Suc T) = Suc (tick_count P P T)"
      using True Suc.prems(5) by (auto simp: tick_count_def le_div_geq)
    have env: "clock ?w2 = clock w + 1" "transport_of ?w2 = transport_of w"
      "settingsTarget ?w2 = settingsTarget w"
      "requests ?w2 = requests w @ [(clock w + 1, transport_of w, settingsTarget w)]"
      by (simp_all add: timer_fires_eq elapse1_def transport_of_def)
    let ?f = "\<lambda>k. (clock w + int d + int k * int P, transport_of w, settingsTarget w)"
    have "map ?f [0..<Suc (tick_count P P T)] =
          ?f 0 # map (\<lambda>k. ?f (Suc k)) [0..<tick_count P P T]"
      by (rule map_upt_Suc)
    also have "\<dots> = (clock w + 1, transport_of w, settingsTarget w) #
          map (\<lambda>k. (clock ?w2 + int P + int k * int P, transport_of ?w2, settingsTarget ?w2))
            [0..<tick_count P P T]"
      using True by (simp add: env algebra_simps)
    finally have "requests w @ map ?f [0..<tick_count d P (Suc T)] = requests (advance T ?w2)"
      by (simp only: IH tc env append_Cons append_Nil append_assoc)
    then show ?thesis by (simp add: f)
  next
    case False
    have f: "fire_due ?w1 = ?w1" using d1 False Suc.prems(3) by (simp add: fire_due_running [OF r1])
    have IH: "requests (advance T ?w1) =
        requests ?w1 @ map (\<lambda>k. (clock ?w1 + int (d - 1) + int k * int P, transport_of ?w1, settingsTarget ?w1))
                        [0..<tick_count (d - 1) P T]"
      by (rule Suc.IH [OF r1 d1 _ p1 Suc.prems(5,6)]) (use False Suc.prems(3) in simp)
    have tc: "tick_count d P (Suc T) = tick_count (d - 1) P T"
      using False Suc.prems(3) by (auto simp: tick_count_def Suc_diff_le)
    show ?thesis
      using False Suc.prems(3)
      by (simp add: f IH tc) (simp add: elapse1_def transport_of_def of_nat_diff)
  qed
qed

subsection \<open>Which subscriptions are open\<close>

lemma map_closed_update:
  "closed s = closed (xs ! i) \<Longrightarrow> map closed (xs[i := s]) = map closed xs"
  by (cases "i < length xs") (simp_all add: map_update list_update_same_conv list_update_beyond)

lemma same_shape:
  assumes "map closed (subscriptions w') = map closed (subscriptions w)"
  shows "length (subscriptions w') = length (subscriptions w)"
    and "i < length (subscriptions w) \<Longrightarrow> closed (subscriptions w' ! i) = closed (subscriptions w ! i)"
proof -
  show len: "length (subscriptions w') = length (subscriptions w)"
    using assms by (rule map_eq_imp_length_eq)
  assume "i < length (subscriptions w)"
  then show "closed (subscriptions w' ! i) = closed (subscriptions w ! i)"
    using assms len by (metis nth_map)
qed

lemma well_formed_cong:
  "map closed (subscriptions w') = map closed (subscriptions w) \<Longrightarrow>
   pollingSubscription w' = pollingSubscription w \<Longrightarrow> well_formed w' = well_formed w"
  using same_shape [of w' w] by (auto simp: well_formed_def)

lemma all_closed_cong:
  "map closed (subscriptions w') = map closed (subscriptions w) \<Longrightarrow> all_closed w' = all_closed w"
  using same_shape [of w' w] by (auto simp: all_closed_def)

lemma shape_timer_fires:
  "map closed (subscriptions (timer_fires i w)) = map closed (subscriptions w)"
  "pollingSubscription (timer_fires i w) = pollingSubscription w"
  by (simp_all add: timer_fires_eq map_closed_update)

lemma shape_fire_due:
  "map closed (subscriptions (fire_due w)) = map closed (subscriptions w) \<and>
   pollingSubscription (fire_due w) = pollingSubscription w"
proof -
  have "map closed (subscriptions (foldl (\<lambda>w i. if is_due i w then timer_fires i w else w) w xs)) =
          map closed (subscriptions w) \<and>
        pollingSubscription (foldl (\<lambda>w i. if is_due i w then timer_fires i w else w) w xs) =
          pollingSubscription w" for xs
    by (induction xs arbitrary: w) (simp_all add: shape_timer_fires)
  then show ?thesis by (simp add: fire_due_def)
qed

lemma shape_elapse1:
  "map closed (subscriptions (elapse1 w)) = map closed (subscriptions w)"
  "pollingSubscription (elapse1 w) = pollingSubscription w"
  by (simp_all add: elapse1_def)

lemma shape_advance:
  "map closed (subscriptions (advance k w)) = map closed (subscriptions w) \<and>
   pollingSubscription (advance k w) = pollingSubscription w"
  by (induction k arbitrary: w) (simp_all add: shape_fire_due shape_elapse1)

lemma shape_on_result:
  "subscriptions (on_result r w) = subscriptions w"
  "pollingSubscription (on_result r w) = pollingSubscription w"
  by (simp_all add: on_result_eq)

lemma shape_settle:
  "map closed (subscriptions (settle n out w)) = map closed (subscriptions w) \<and>
   pollingSubscription (settle n out w) = pollingSubscription w"
  by (simp add: settle_def deliver_eq shape_on_result map_closed_update split: option.splits)

lemma stopMonitoring_eq:
  "stopMonitoring w =
     w\<lparr>subscriptions := (case pollingSubscription w of
                           Some i \<Rightarrow> (subscriptions w)[i := (subscriptions w ! i)\<lparr>closed := True\<rparr>]
                         | None \<Rightarrow> subscriptions w),
       pollingSubscription := None, isMonitoring := False\<rparr>"
  by (simp add: stopMonitoring_def unsubscribe_def split: option.splits)

lemma all_closed_stopMonitoring: "well_formed w \<Longrightarrow> all_closed (stopMonitoring w)"
  by (auto simp: well_formed_def all_closed_def stopMonitoring_eq nth_list_update split: option.splits)

lemma well_formed_idle: "all_closed w \<Longrightarrow> pollingSubscription w = None \<Longrightarrow> well_formed w"
  by (simp add: well_formed_def all_closed_def)

lemma startMonitoring_eq:
  "startMonitoring ov w =
     (stopMonitoring w)\<lparr>isMonitoring := True,
        subscriptions := subscriptions (stopMonitoring w) @
          [\<lparr>period = (case ov of Some ms \<Rightarrow> ms | None \<Rightarrow> settingsInterval w * 1000),
            due = Some 0, inner = None, closed = False\<rparr>],
        pollingSubscription := Some (length (subscriptions w))\<rparr>"
  by (simp add: startMonitoring_def Let_def pingIntervalMs_def stopMonitoring_eq split: option.splits)

lemma length_subscriptions_stopMonitoring:
  "length (subscriptions (stopMonitoring w)) = length (subscriptions w)"
  by (simp add: stopMonitoring_eq split: option.splits)

lemma running_startMonitoring:
  assumes "well_formed w"
  shows "running (length (subscriptions w)) (startMonitoring ov w)"
proof -
  have "all_closed (stopMonitoring w)" using assms by (rule all_closed_stopMonitoring)
  then show ?thesis
    by (auto simp: running_def startMonitoring_eq all_closed_def nth_append
        length_subscriptions_stopMonitoring)
qed

lemma well_formed_running: "running j w \<Longrightarrow> pollingSubscription w = Some j \<Longrightarrow> well_formed w"
  by (auto simp: running_def well_formed_def)

lemma well_formed_startMonitoring: "well_formed w \<Longrightarrow> well_formed (startMonitoring ov w)"
  by (rule well_formed_running [OF running_startMonitoring]) (simp_all add: startMonitoring_eq)

lemma well_formed_stopMonitoring: "well_formed w \<Longrightarrow> well_formed (stopMonitoring w)"
  by (rule well_formed_idle [OF all_closed_stopMonitoring]) (simp_all add: stopMonitoring_eq)

lemma well_formed_step: "well_formed w \<Longrightarrow> well_formed (step e w)"
proof (cases e)
  case (Advance k)
  assume "well_formed w"
  then show ?thesis
    using well_formed_cong [of "advance k (fire_due w)" w] shape_advance [of k "fire_due w"]
      shape_fire_due [of w]
    by (simp add: Advance)
next
  case (Settle n out)
  assume "well_formed w"
  then show ?thesis
    using well_formed_cong [of "settle n out w" w] shape_settle [of n out w] by (simp add: Settle)
next
  case (UpdateConfig t i)
  assume "well_formed w"
  then show ?thesis by (simp add: UpdateConfig updateMonitoringConfig_def well_formed_def)
qed (simp_all add: well_formed_startMonitoring well_formed_stopMonitoring)

lemma run_Nil: "run [] w = w"
  by (simp add: run_def)

lemma run_Cons: "run (e # evs) w = run evs (step e w)"
  by (simp add: run_def)

lemma run_append: "run (evs @ evs') w = run evs' (run evs w)"
  by (simp add: run_def)

lemma well_formed_run: "well_formed w \<Longrightarrow> well_formed (run evs w)"
  by (induction evs arbitrary: w) (simp_all add: run_Nil run_Cons well_formed_step)

lemma well_formed_no_subscriptions: "subscriptions w = [] \<Longrightarrow> well_formed w"
  by (simp add: well_formed_def)

lemma at_most_one:
  "(\<forall>i < length xs. \<forall>j < length xs. P (xs ! i) \<longrightarrow> P (xs ! j) \<longrightarrow> i = j) \<Longrightarrow>
   length (filter P xs) \<le> 1"
proof (induction xs)
  case Nil
  then show ?case by simp
next
  case (Cons x xs)
  have tl: "\<forall>i < length xs. \<forall>j < length xs. P (xs ! i) \<longrightarrow> P (xs ! j) \<longrightarrow> i = j"
  proof (intro allI impI)
    fix i j assume "i < length xs" "j < length xs" "P (xs ! i)" "P (xs ! j)"
    with Cons.prems [rule_format, of "Suc i" "Suc j"] show "i = j" by simp
  qed
  show ?case
  proof (cases "P x")
    case True
    have "\<not> P y" if "y \<in> set xs" for y
    proof
      assume "P y"
      from that obtain k where "k < length xs" "xs ! k = y" by (auto simp: in_set_conv_nth)
      with Cons.prems [rule_format, of 0 "Suc k"] True \<open>P y\<close> show False by simp
    qed
    then have "filter P xs = []" by (simp add: filter_empty_conv)
    with True show ?thesis by simp
  next
    case False
    with Cons.IH [OF tl] show ?thesis by simp
  qed
qed

lemma well_formed_at_most_one:
  "well_formed w \<Longrightarrow> length (filter (\<lambda>s. \<not> closed s) (subscriptions w)) \<le> 1"
  by (rule at_most_one) (auto simp: well_formed_def)

subsection \<open>The history buffer\<close>

lemma slice_from_neg: "0 < n \<Longrightarrow> slice_from (- int n) xs = drop (length xs - n) xs"
  by (simp add: slice_from_def Let_def max_def nat_diff_distrib')

lemma keep_last_50_eq: "keep_last_50 current r = drop (Suc (length current) - 50) (current @ [r])"
  using slice_from_neg [of 50 "current @ [r]"] by (simp add: keep_last_50_def)

lemma length_keep_last_50: "length (keep_last_50 current r) \<le> 50"
  by (simp add: keep_last_50_eq)

lemma foldl_keep_last_50: "foldl keep_last_50 [] ms = drop (length ms - 50) ms"
proof (induction ms rule: rev_induct)
  case Nil
  then show ?case by simp
next
  case (snoc m ms)
  let ?b = "length ms - 50"
  have "foldl keep_last_50 [] (ms @ [m]) = keep_last_50 (drop ?b ms) m"
    by (simp add: snoc.IH)
  also have "\<dots> = drop (Suc (length ms - ?b) - 50) (drop ?b (ms @ [m]))"
    by (simp add: keep_last_50_eq)
  also have "\<dots> = drop (length (ms @ [m]) - 50) (ms @ [m])"
    by (simp only: drop_drop) (rule arg_cong [where f = "\<lambda>k. drop k (ms @ [m])"], simp)
  finally show ?case .
qed

lemma results_on_result: "results (on_result m w) = keep_last_50 (results w) m"
  by (simp add: on_result_def savePing_def execute_def Let_def split: option.splits)

lemma results_foldl_on_result:
  "results (foldl (\<lambda>w m. on_result m w) w ms) = foldl keep_last_50 (results w) ms"
  by (induction ms arbitrary: w) (simp_all add: results_on_result)

subsection \<open>Statistics\<close>

text \<open>
  Claim C2. The jitter of three \<^verbatim>\<open>Ok\<close> measurements with latencies 10, 20, 30 is
  1.2109375, and so is the jitter of 10, 20, 10: the running value is 0.625 after the
  first difference and 1.2109375 after the second.
\<close>

theorem jitter_reference_cases:
  "jitter [\<lparr>latencyMs = Some 10, timestamp = t1, status = StatusOk\<rparr>,
           \<lparr>latencyMs = Some 20, timestamp = t2, status = StatusOk\<rparr>,
           \<lparr>latencyMs = Some 30, timestamp = t3, status = StatusOk\<rparr>] = 12109375 / 10000000 \<and>
   jitter [\<lparr>latencyMs = Some 10, timestamp = t1, status = StatusOk\<rparr>,
           \<lparr>latencyMs = Some 20, timestamp = t2, status = StatusOk\<rparr>,
           \<lparr>latencyMs = Some 10, timestamp = t3, status = StatusOk\<rparr>] = 12109375 / 10000000 \<and>
   jitter_from 0 [10, 20] = 625 / 1000 \<and>
   jitter_from j (a # b # ls) = jitter_from (j + (\<bar>b - a\<bar> - j) / 16) (b # ls)"
  by (simp add: jitter_def ok_latencies_def)

subsection \<open>One probe\<close>

text \<open>
  Claim C3. Whatever the transport does, a probe delivers a value and never an error.
  When the transport's promise is rejected, with whatever failure, the value is the
  error result: no latency, status \<^verbatim>\<open>'error'\<close>. In every result the latency is
  present exactly when the status is \<^verbatim>\<open>'ok'\<close>.
\<close>

theorem probe_never_errors:
  "fst (measureLatency tauri start_ms now (Rejected e)) =
     Next \<lparr>latencyMs = None, timestamp = now, status = StatusError\<rparr> \<and>
   (\<exists>r. fst (measureLatency tauri start_ms now out) = Next r \<and>
        (latencyMs r \<noteq> None) = (status r = StatusOk))"
  by (cases out) (simp_all add: measureLatency_def error_result_def)

subsection \<open>What time and timers leave alone\<close>

lemma frame_timer_fires:
  "results (timer_fires i w) = results w" "savePingCalls (timer_fires i w) = savePingCalls w"
  "rows (timer_fires i w) = rows w" "console (timer_fires i w) = console w"
  "isMonitoring (timer_fires i w) = isMonitoring w"
  by (simp_all add: timer_fires_eq)

lemma frame_fire_due:
  "results (fire_due w) = results w \<and> savePingCalls (fire_due w) = savePingCalls w \<and>
   rows (fire_due w) = rows w \<and> console (fire_due w) = console w \<and>
   isMonitoring (fire_due w) = isMonitoring w"
proof -
  let ?F = "\<lambda>w i. if is_due i w then timer_fires i w else w"
  have "results (foldl ?F w xs) = results w \<and> savePingCalls (foldl ?F w xs) = savePingCalls w \<and>
        rows (foldl ?F w xs) = rows w \<and> console (foldl ?F w xs) = console w \<and>
        isMonitoring (foldl ?F w xs) = isMonitoring w" for xs
    by (induction xs arbitrary: w) (simp_all add: frame_timer_fires)
  then show ?thesis by (simp add: fire_due_def)
qed

lemma frame_advance:
  "results (advance k w) = results w \<and> savePingCalls (advance k w) = savePingCalls w \<and>
   rows (advance k w) = rows w \<and> console (advance k w) = console w \<and>
   isMonitoring (advance k w) = isMonitoring w"
  by (induction k arbitrary: w) (simp_all add: frame_fire_due elapse1_def)

lemma nth_update_total: "j < length xs \<Longrightarrow> xs[i := x] ! j = (if i = j then x else xs ! j)"
  by (cases "i < length xs") (auto simp: nth_list_update list_update_beyond)

lemma waiting_for_closed: "\<forall>s \<in> set ss. closed s \<Longrightarrow> waiting_for n ss i = None"
  by (induction ss arbitrary: i) (simp_all split: option.splits)

lemma all_closed_set: "all_closed w = (\<forall>s \<in> set (subscriptions w). closed s)"
  by (simp add: all_closed_def all_set_conv_all_nth)

lemma settle_all_closed: "all_closed w \<Longrightarrow> settle n out w = w"
  by (simp add: settle_def all_closed_set waiting_for_closed)

lemma quiet_step:
  assumes "all_closed w" and "\<forall>ov. e \<noteq> Start ov"
  shows "all_closed (step e w) \<and> results (step e w) = results w \<and>
         savePingCalls (step e w) = savePingCalls w \<and> requests (step e w) = requests w \<and>
         rows (step e w) = rows w"
proof (cases e)
  case (Start ov)
  with assms(2) show ?thesis by simp
next
  case Stop
  with assms(1) show ?thesis
    by (auto simp: all_closed_def stopMonitoring_eq nth_update_total split: option.splits)
next
  case (Advance k)
  have f: "fire_due w = w"
    using assms(1) by (intro fire_due_all_closed) (simp add: all_closed_def)
  have a: "advance k w = elapse k w"
    using assms(1) by (intro advance_all_closed) (simp add: all_closed_def)
  show ?thesis using assms(1) by (simp add: Advance f a elapse_def all_closed_def)
next
  case (Settle n out)
  with assms(1) show ?thesis by (simp add: settle_all_closed)
next
  case (UpdateConfig t i)
  with assms(1) show ?thesis by (simp add: updateMonitoringConfig_def all_closed_def)
qed

lemma quiet_run:
  "all_closed w \<Longrightarrow> \<forall>ov. Start ov \<notin> set evs \<Longrightarrow>
   results (run evs w) = results w \<and> savePingCalls (run evs w) = savePingCalls w \<and>
   requests (run evs w) = requests w \<and> rows (run evs w) = rows w"
proof (induction evs arbitrary: w)
  case Nil
  then show ?case by (simp add: run_Nil)
next
  case (Cons e evs)
  from Cons.prems have e: "\<forall>ov. e \<noteq> Start ov" and rest: "\<forall>ov. Start ov \<notin> set evs" by auto
  from quiet_step [OF Cons.prems(1) e] Cons.IH [OF _ rest, of "step e w"]
  show ?case by (simp add: run_Cons)
qed

text \<open>
  Claim C5. Once \<^verbatim>\<open>stopMonitoring\<close> has returned, whatever happens next short of a
  new start (time passing over any number of tick boundaries, probes settling, settings
  changing, further stops) publishes no measurement, issues no probe and persists
  nothing. On a service that is idle, \<^verbatim>\<open>stopMonitoring\<close> changes nothing (the
  monitoring flag is set to the value it already has).
\<close>

theorem stop_ends_publication:
  assumes "well_formed w" and "\<forall>ov. Start ov \<notin> set evs"
  shows "results (run evs (stopMonitoring w)) = results w \<and>
         savePingCalls (run evs (stopMonitoring w)) = savePingCalls w \<and>
         requests (run evs (stopMonitoring w)) = requests w \<and>
         rows (run evs (stopMonitoring w)) = rows w \<and>
         (pollingSubscription v = None \<and> \<not> isMonitoring v \<longrightarrow> stopMonitoring v = v)"
  using quiet_run [OF all_closed_stopMonitoring [OF assms(1)] assms(2)]
  by (simp add: stopMonitoring_eq)

theorem stop_ends_publication_witness:
  "results (run [Advance 7, Settle 1 (Resolved 42), Stop, Advance 3]
      (stopMonitoring (run [Start (Some 2), Advance 3] (initial_world None)))) = [] \<and>
   requests (run [Advance 7, Settle 1 (Resolved 42), Stop, Advance 3]
      (stopMonitoring (run [Start (Some 2), Advance 3] (initial_world None)))) =
     [(0, TauriPing, ''8.8.8.8''), (2, TauriPing, ''8.8.8.8'')] \<and>
   stopMonitoring (initial_world None) = initial_world None"
proof -
  have wf: "well_formed (run [Start (Some 2), Advance 3] (initial_world None))"
    by (rule well_formed_run) (simp add: well_formed_def initial_world_def)
  have no: "\<forall>ov. Start ov \<notin> set [Advance 7, Settle 1 (Resolved 42), Stop, Advance 3]"
    by simp
  have r: "results (run [Start (Some 2), Advance 3] (initial_world None)) = []"
    by code_simp
  have q: "requests (run [Start (Some 2), Advance 3] (initial_world None)) =
     [(0, TauriPing, ''8.8.8.8''), (2, TauriPing, ''8.8.8.8'')]"
    by code_simp
  have i: "pollingSubscription (initial_world None) = None \<and> \<not> isMonitoring (initial_world None)"
    by (simp add: initial_world_def)
  from stop_ends_publication [OF wf no, of "initial_world None"] r q i show ?thesis by simp
qed


subsection \<open>One loop at a time\<close>

lemma running_others_closed:
  "running j w \<Longrightarrow> i < length (subscriptions w) \<Longrightarrow> i \<noteq> j \<Longrightarrow> closed (subscriptions w ! i)"
  by (auto simp: running_def)

lemma well_formed_cases: "well_formed w \<Longrightarrow> all_closed w \<or> (\<exists>j. running j w)"
  by (auto simp: well_formed_def all_closed_def running_def)

lemma fire_due_at_most_one:
  assumes "well_formed w"
  shows "length (requests (fire_due w)) \<le> Suc (length (requests w))"
proof -
  from well_formed_cases [OF assms] show ?thesis
  proof
    assume "all_closed w"
    then have "fire_due w = w" by (intro fire_due_all_closed) (simp add: all_closed_def)
    then show ?thesis by simp
  next
    assume "\<exists>j. running j w"
    then obtain j where "running j w" ..
    then show ?thesis by (simp add: fire_due_running timer_fires_eq)
  qed
qed

text \<open>
  Claim C6. In every state a newly constructed service can reach, at most one
  subscription is open. \<^verbatim>\<open>startMonitoring\<close> closes every subscription that existed
  before the call and leaves the new one as the only open one, and no instant issues more
  than one probe.
\<close>

theorem at_most_one_polling_loop:
  assumes "subscriptions w0 = []"
  shows "length (filter (\<lambda>s. \<not> closed s) (subscriptions (run evs w0))) \<le> 1 \<and>
         (\<forall>i < length (subscriptions (run evs w0)).
             closed (subscriptions (startMonitoring ov (run evs w0)) ! i)) \<and>
         \<not> closed (subscriptions (startMonitoring ov (run evs w0)) ! length (subscriptions (run evs w0))) \<and>
         length (filter (\<lambda>s. \<not> closed s) (subscriptions (startMonitoring ov (run evs w0)))) \<le> 1 \<and>
         length (requests (fire_due (run evs w0))) \<le> Suc (length (requests (run evs w0)))"
proof -
  let ?w = "run evs w0"
  have wf: "well_formed ?w"
    using assms by (intro well_formed_run well_formed_no_subscriptions)
  have r: "running (length (subscriptions ?w)) (startMonitoring ov ?w)"
    using wf by (rule running_startMonitoring)
  have len: "length (subscriptions (startMonitoring ov ?w)) = Suc (length (subscriptions ?w))"
    by (simp add: startMonitoring_eq length_subscriptions_stopMonitoring)
  have "\<forall>i < length (subscriptions ?w). closed (subscriptions (startMonitoring ov ?w) ! i)"
    using running_others_closed [OF r] len by simp
  moreover have "\<not> closed (subscriptions (startMonitoring ov ?w) ! length (subscriptions ?w))"
    using r by (auto simp: running_def)
  ultimately show ?thesis
    using well_formed_at_most_one [OF wf]
      well_formed_at_most_one [OF well_formed_startMonitoring [OF wf, of ov]]
      fire_due_at_most_one [OF wf]
    by simp
qed

theorem at_most_one_polling_loop_witness:
  "subscriptions (initial_world None) = [] \<and>
   length (filter (\<lambda>s. \<not> closed s)
     (subscriptions (run [Start (Some 2), Advance 3, Start None, Advance 0] (initial_world None)))) \<le> 1 \<and>
   map closed (subscriptions (startMonitoring (Some 7)
     (run [Start (Some 2), Advance 3, Start None, Advance 0] (initial_world None)))) =
     [True, True, False]"
proof -
  have e: "subscriptions (initial_world None) = []" by (simp add: initial_world_def)
  have m: "map closed (subscriptions (startMonitoring (Some 7)
     (run [Start (Some 2), Advance 3, Start None, Advance 0] (initial_world None)))) =
     [True, True, False]"
    by code_simp
  from at_most_one_polling_loop [OF e, of "[Start (Some 2), Advance 3, Start None, Advance 0]" "Some 7"]
    e m show ?thesis by simp
qed

subsection \<open>The cadence\<close>

lemma well_formed_initial_world: "well_formed (initial_world r)"
  by (simp add: well_formed_def initial_world_def)

text \<open>
  Claim C7. \<^verbatim>\<open>startMonitoring\<close> gives the timer the override when there is one and
  the configured seconds times 1000 otherwise. With an interval \<open>P\<close> between 1 and
  2147483647 milliseconds, which is what the host's timer can hold, the probes issued
  within \<open>T\<close> milliseconds of the start are those at \<open>0, P, 2P, \<dots>\<close> up to \<open>T\<close>:
  \<open>T div P + 1\<close> of them, so three for 1000 and 2500.
\<close>

theorem first_probe_at_once_then_every_interval:
  assumes "well_formed w"
    and "(case ov of Some ms \<Rightarrow> ms | None \<Rightarrow> settingsInterval w * 1000) = int P"
    and "0 < P" and "P \<le> 2147483647"
  shows "period (subscriptions (startMonitoring ov w) ! length (subscriptions w)) = int P \<and>
         requests (run [Start ov, Advance T] w) =
           requests w @ map (\<lambda>k. (clock w + int k * int P, transport_of w, settingsTarget w))
                          [0..<T div P + 1]"
proof -
  let ?j = "length (subscriptions w)"
  let ?w1 = "startMonitoring ov w"
  let ?w2 = "timer_fires ?j ?w1"
  have r1: "running ?j ?w1" using assms(1) by (rule running_startMonitoring)
  have s1: "subscriptions ?w1 ! ?j =
              \<lparr>period = int P, due = Some 0, inner = None, closed = False\<rparr>"
    using assms(2) by (simp add: startMonitoring_eq length_subscriptions_stopMonitoring nth_append)
  have env1: "clock ?w1 = clock w" "requests ?w1 = requests w" "settingsTarget ?w1 = settingsTarget w"
    "transport_of ?w1 = transport_of w"
    by (simp_all add: startMonitoring_eq stopMonitoring_eq transport_of_def)
  have f: "fire_due ?w1 = ?w2" using s1 by (simp add: fire_due_running [OF r1])
  have r2: "running ?j ?w2" using r1 by (rule running_timer_fires)
  have j: "?j < length (subscriptions ?w1)" using r1 by (simp add: running_def)
  have s2: "due (subscriptions ?w2 ! ?j) = Some P" "period (subscriptions ?w2 ! ?j) = int P"
    using j s1 assms(3,4) by (simp_all add: timer_fires_eq host_delay_def)
  have env2: "clock ?w2 = clock w" "settingsTarget ?w2 = settingsTarget w"
    "transport_of ?w2 = transport_of w"
    "requests ?w2 = requests w @ [(clock w, transport_of w, settingsTarget w)]"
    by (simp_all add: timer_fires_eq env1 transport_of_def startMonitoring_eq stopMonitoring_eq)
  let ?f = "\<lambda>k. (clock w + int k * int P, transport_of w, settingsTarget w)"
  have tc: "T div P = tick_count P P T"
    using assms(3) by (auto simp: tick_count_def le_div_geq)
  have "requests (advance T ?w2) =
        requests ?w2 @ map (\<lambda>k. (clock ?w2 + int P + int k * int P, transport_of ?w2, settingsTarget ?w2))
                        [0..<tick_count P P T]"
    by (rule requests_advance [OF r2 s2(1) assms(3) s2(2) assms(3,4)])
  also have "\<dots> = requests w @ (?f 0 # map (\<lambda>k. ?f (Suc k)) [0..<tick_count P P T])"
    by (simp add: env2 algebra_simps)
  also have "?f 0 # map (\<lambda>k. ?f (Suc k)) [0..<tick_count P P T] = map ?f [0..<Suc (tick_count P P T)]"
    by (rule map_upt_Suc [symmetric])
  finally have "requests (advance T ?w2) = requests w @ map ?f [0..<T div P + 1]"
    by (simp only: tc Suc_eq_plus1)
  then show ?thesis using s1 by (simp add: run_Cons run_Nil f)
qed

theorem first_probe_at_once_then_every_interval_witness:
  "requests (run [Start (Some 1000), Advance 2500] (initial_world None)) =
     [(0, TauriPing, ''8.8.8.8''), (1000, TauriPing, ''8.8.8.8''), (2000, TauriPing, ''8.8.8.8'')] \<and>
   requests (run [Start None, Advance 12000] (initial_world None)) =
     [(0, TauriPing, ''8.8.8.8''), (5000, TauriPing, ''8.8.8.8''), (10000, TauriPing, ''8.8.8.8'')]"
proof -
  have u: "[0..<3] = [0, 1, Suc 1]" by (simp add: upt_rec)
  have a: "(case Some 1000 of Some ms \<Rightarrow> ms | None \<Rightarrow> settingsInterval (initial_world None) * 1000) = int 1000"
    by simp
  have b: "(case None of Some ms \<Rightarrow> ms | None \<Rightarrow> settingsInterval (initial_world None) * 1000) = int 5000"
    by (simp add: initial_world_def)
  from first_probe_at_once_then_every_interval [OF well_formed_initial_world a, of 2500]
       first_probe_at_once_then_every_interval [OF well_formed_initial_world b, of 12000]
  show ?thesis by (simp add: u initial_world_def transport_of_def)
qed

subsection \<open>The history across stops and starts\<close>

lemma pushes_on_result:
  "results (on_result r w) = keep_last_50 (results w) r"
  "savePingCalls (on_result r w) = savePingCalls w @ [(r, settingsTarget w)]"
  by (simp_all add: on_result_eq)

lemma pushes_settle:
  "\<exists>ms. results (settle n out w) = foldl keep_last_50 (results w) (map fst ms) \<and>
        savePingCalls (settle n out w) = savePingCalls w @ ms"
proof (cases "waiting_for n (subscriptions w) 0")
  case None
  then have "settle n out w = w" by (simp add: settle_def)
  then have "results (settle n out w) = foldl keep_last_50 (results w) (map fst []) \<and>
             savePingCalls (settle n out w) = savePingCalls w @ []" by simp
  then show ?thesis ..
next
  case (Some ip)
  obtain i p where "ip = (i, p)" by (cases ip)
  with Some have s: "settle n out w = deliver i p out w" by (simp add: settle_def)
  let ?m = "measured p (clock w) out"
  have "results (settle n out w) = foldl keep_last_50 (results w) (map fst [(?m, settingsTarget w)]) \<and>
        savePingCalls (settle n out w) = savePingCalls w @ [(?m, settingsTarget w)]"
    by (simp add: s deliver_eq pushes_on_result)
  then show ?thesis ..
qed

lemma pushes_step:
  "\<exists>ms. results (step e w) = foldl keep_last_50 (results w) (map fst ms) \<and>
        savePingCalls (step e w) = savePingCalls w @ ms"
proof (cases e)
  case (Settle n out)
  then show ?thesis using pushes_settle [of n out w] by simp
next
  case (Advance k)
  have "results (step e w) = foldl keep_last_50 (results w) (map fst []) \<and>
        savePingCalls (step e w) = savePingCalls w @ []"
    using frame_advance [of k "fire_due w"] frame_fire_due [of w] by (simp add: Advance)
  then show ?thesis ..
next
  case (Start ov)
  have "results (step e w) = foldl keep_last_50 (results w) (map fst []) \<and>
        savePingCalls (step e w) = savePingCalls w @ []"
    by (simp add: Start startMonitoring_eq stopMonitoring_eq)
  then show ?thesis ..
next
  case Stop
  have "results (step e w) = foldl keep_last_50 (results w) (map fst []) \<and>
        savePingCalls (step e w) = savePingCalls w @ []"
    by (simp add: Stop stopMonitoring_eq)
  then show ?thesis ..
next
  case (UpdateConfig t i)
  have "results (step e w) = foldl keep_last_50 (results w) (map fst []) \<and>
        savePingCalls (step e w) = savePingCalls w @ []"
    by (simp add: UpdateConfig updateMonitoringConfig_def)
  then show ?thesis ..
qed

lemma pushes_run:
  "\<exists>ms. results (run evs w) = foldl keep_last_50 (results w) (map fst ms) \<and>
        savePingCalls (run evs w) = savePingCalls w @ ms"
proof (induction evs arbitrary: w)
  case Nil
  have "results (run [] w) = foldl keep_last_50 (results w) (map fst []) \<and>
        savePingCalls (run [] w) = savePingCalls w @ []" by (simp add: run_Nil)
  then show ?case ..
next
  case (Cons e evs)
  obtain ms where 1: "results (step e w) = foldl keep_last_50 (results w) (map fst ms)"
      "savePingCalls (step e w) = savePingCalls w @ ms"
    using pushes_step [of e w] by blast
  obtain ms' where 2: "results (run evs (step e w)) = foldl keep_last_50 (results (step e w)) (map fst ms')"
      "savePingCalls (run evs (step e w)) = savePingCalls (step e w) @ ms'"
    using Cons.IH [of "step e w"] by blast
  have "results (run (e # evs) w) = foldl keep_last_50 (results w) (map fst (ms @ ms')) \<and>
        savePingCalls (run (e # evs) w) = savePingCalls w @ (ms @ ms')"
    by (simp add: run_Cons 1 2)
  then show ?case ..
qed

lemma results_run:
  "results (run evs w) =
     foldl keep_last_50 (results w)
       (map fst (drop (length (savePingCalls w)) (savePingCalls (run evs w))))"
proof -
  obtain ms where "results (run evs w) = foldl keep_last_50 (results w) (map fst ms)"
      "savePingCalls (run evs w) = savePingCalls w @ ms"
    using pushes_run [of evs w] by blast
  then show ?thesis by simp
qed

text \<open>
  Claim C1. Whatever measurements the subscriber's callback receives, starting from the
  empty history a new service has, the published list is the last 50 of them, in the
  order they arrived (the oldest are the ones dropped), and so never longer than 50.
  Whatever run a service with an empty history goes through, its history never holds more
  than 50 measurements.
\<close>

theorem history_keeps_last_50_in_push_order:
  "results (foldl (\<lambda>w m. on_result m w) (w\<lparr>results := []\<rparr>) ms) = drop (length ms - 50) ms \<and>
   length (results (foldl (\<lambda>w m. on_result m w) (w\<lparr>results := []\<rparr>) ms)) \<le> 50 \<and>
   length (results (run evs (w\<lparr>results := []\<rparr>))) \<le> 50"
proof -
  have bound: "length (foldl keep_last_50 [] xs) \<le> 50" for xs :: "PingResult list"
    by (simp add: foldl_keep_last_50)
  have "results (run evs (w\<lparr>results := []\<rparr>)) =
        foldl keep_last_50 []
          (map fst (drop (length (savePingCalls w)) (savePingCalls (run evs (w\<lparr>results := []\<rparr>)))))"
    using results_run [of evs "w\<lparr>results := []\<rparr>"] by simp
  then have "length (results (run evs (w\<lparr>results := []\<rparr>))) \<le> 50"
    by (simp only: bound)
  then show ?thesis
    by (simp add: results_foldl_on_result foldl_keep_last_50)
qed

subsection \<open>A failing repository\<close>

lemma with_storage_fields:
  "pollingSubscription (with_storage d w) = pollingSubscription w"
  "results (with_storage d w) = results w"
  "isMonitoring (with_storage d w) = isMonitoring w"
  "subscriptions (with_storage d w) = subscriptions w"
  "settingsTarget (with_storage d w) = settingsTarget w"
  "settingsInterval (with_storage d w) = settingsInterval w"
  "hasTauri (with_storage d w) = hasTauri w"
  "nativePlatform (with_storage d w) = nativePlatform w"
  "clock (with_storage d w) = clock w"
  "requests (with_storage d w) = requests w"
  "savePingCalls (with_storage d w) = savePingCalls w"
  by (simp_all add: with_storage_def)

lemma with_storage_twice: "with_storage d (with_storage d' w) = with_storage d w"
  by (simp add: with_storage_def)

lemma storage_timer_fires: "timer_fires i (with_storage d w) = with_storage d (timer_fires i w)"
  by (simp add: timer_fires_eq with_storage_def transport_of_def)

lemma is_due_storage: "is_due i (with_storage d w) = is_due i w"
  by (simp add: is_due_def with_storage_fields)

lemma storage_fire_due: "fire_due (with_storage d w) = with_storage d (fire_due w)"
proof -
  let ?F = "\<lambda>w i. if is_due i w then timer_fires i w else w"
  have "foldl ?F (with_storage d w) xs = with_storage d (foldl ?F w xs)" for xs
    by (induction xs arbitrary: w) (simp_all add: storage_timer_fires is_due_storage)
  then show ?thesis by (simp add: fire_due_def with_storage_fields)
qed

lemma storage_elapse1: "elapse1 (with_storage d w) = with_storage d (elapse1 w)"
  by (simp add: elapse1_def with_storage_def)

lemma storage_advance: "advance k (with_storage d w) = with_storage d (advance k w)"
  by (induction k arbitrary: w) (simp_all add: storage_elapse1 storage_fire_due)

lemma storage_stopMonitoring: "stopMonitoring (with_storage d w) = with_storage d (stopMonitoring w)"
  by (simp add: stopMonitoring_eq with_storage_def split: option.splits)

lemma storage_startMonitoring:
  "startMonitoring ov (with_storage d w) = with_storage d (startMonitoring ov w)"
  by (simp add: startMonitoring_eq storage_stopMonitoring with_storage_fields)
     (simp add: with_storage_def split: option.splits)

lemma storage_updateMonitoringConfig:
  "updateMonitoringConfig t i (with_storage d w) = with_storage d (updateMonitoringConfig t i w)"
  by (simp add: updateMonitoringConfig_def with_storage_def split: option.splits)

lemma storage_on_result:
  "on_result r (with_storage d w) = with_storage (on_result r (with_storage d w)) (on_result r w)"
  by (simp add: on_result_eq with_storage_def)

lemma storage_settle:
  "settle n out (with_storage d w) = with_storage (settle n out (with_storage d w)) (settle n out w)"
  by (simp add: settle_def deliver_eq on_result_eq with_storage_def split: option.splits)

lemma storage_step: "\<exists>d'. step e (with_storage d w) = with_storage d' (step e w)"
proof (cases e)
  case (Settle n out)
  then show ?thesis using storage_settle [of n out d w] by auto
qed (auto simp: storage_startMonitoring storage_stopMonitoring storage_advance storage_fire_due
       storage_updateMonitoringConfig)

lemma storage_run: "\<exists>d'. run evs (with_storage d w) = with_storage d' (run evs w)"
proof (induction evs arbitrary: d w)
  case Nil
  then show ?case by (auto simp: run_Nil)
next
  case (Cons e evs)
  obtain d1 where "step e (with_storage d w) = with_storage d1 (step e w)"
    using storage_step [of e d w] ..
  moreover obtain d2 where "run evs (with_storage d1 (step e w)) = with_storage d2 (run evs (step e w))"
    using Cons.IH [of d1 "step e w"] ..
  ultimately show ?case by (auto simp: run_Cons)
qed


text \<open>
  Claim C8. Run the same events from the same state, once with a database whose
  \<^verbatim>\<open>execute\<close> rejects every write and once with one that works: the results, the
  calls to \<^verbatim>\<open>savePing\<close>, the probes issued, the subscriptions and the clock are the
  same at the end, so after every prefix. With the database initialised and rejecting,
  \<^verbatim>\<open>savePing\<close> still resolves, and all it leaves is the line on the console.
\<close>

theorem failing_repository_is_not_seen:
  "results (run evs (w\<lparr>dbRejects := Some err\<rparr>)) = results (run evs (w\<lparr>dbRejects := None\<rparr>)) \<and>
   savePingCalls (run evs (w\<lparr>dbRejects := Some err\<rparr>)) = savePingCalls (run evs (w\<lparr>dbRejects := None\<rparr>)) \<and>
   requests (run evs (w\<lparr>dbRejects := Some err\<rparr>)) = requests (run evs (w\<lparr>dbRejects := None\<rparr>)) \<and>
   subscriptions (run evs (w\<lparr>dbRejects := Some err\<rparr>)) = subscriptions (run evs (w\<lparr>dbRejects := None\<rparr>)) \<and>
   pollingSubscription (run evs (w\<lparr>dbRejects := Some err\<rparr>)) =
     pollingSubscription (run evs (w\<lparr>dbRejects := None\<rparr>)) \<and>
   isMonitoring (run evs (w\<lparr>dbRejects := Some err\<rparr>)) = isMonitoring (run evs (w\<lparr>dbRejects := None\<rparr>)) \<and>
   clock (run evs (w\<lparr>dbRejects := Some err\<rparr>)) = clock (run evs (w\<lparr>dbRejects := None\<rparr>)) \<and>
   savePing r t (w\<lparr>dbInitialized := True, dbRejects := Some err\<rparr>) =
     (Resolved (),
      w\<lparr>dbInitialized := True, dbRejects := Some err,
        console := console w @ [''Failed to persist ping:'']\<rparr>)"
proof -
  have "w\<lparr>dbRejects := Some err\<rparr> = with_storage (w\<lparr>dbRejects := Some err\<rparr>) (w\<lparr>dbRejects := None\<rparr>)"
    by (simp add: with_storage_def)
  then obtain d where "run evs (w\<lparr>dbRejects := Some err\<rparr>) = with_storage d (run evs (w\<lparr>dbRejects := None\<rparr>))"
    using storage_run [of evs "w\<lparr>dbRejects := Some err\<rparr>" "w\<lparr>dbRejects := None\<rparr>"] by auto
  then show ?thesis by (simp add: with_storage_fields savePing_eq)
qed

text \<open>
  Claim C9. The probe reads the target when the tick fires, and the subscriber's callback
  reads it again when the result arrives. When the configuration changes in between,
  \<^verbatim>\<open>savePing\<close> receives a target that is not the one that was pinged: here the probe
  goes to 8.8.8.8 and its measurement is stored under 1.1.1.1.
\<close>

theorem savePing_receives_the_target_of_the_delivery:
  "requests (run [Start None, Advance 0, UpdateConfig (Some ''1.1.1.1'') None,
                  Settle 0 (Resolved 42)] (initial_world None)) = [(0, TauriPing, ''8.8.8.8'')] \<and>
   savePingCalls (run [Start None, Advance 0, UpdateConfig (Some ''1.1.1.1'') None,
                  Settle 0 (Resolved 42)] (initial_world None)) =
     [(\<lparr>latencyMs = Some 42, timestamp = 0, status = StatusOk\<rparr>, ''1.1.1.1'')] \<and>
   rows (run [Start None, Advance 0, UpdateConfig (Some ''1.1.1.1'') None,
                  Settle 0 (Resolved 42)] (initial_world None)) = [(0, Some 42, 1, ''1.1.1.1'')]"
  by code_simp

subsection \<open>Failures and the loop\<close>

lemma waiting_for_running:
  "j < length ss \<Longrightarrow> \<forall>i < length ss. (\<not> closed (ss ! i)) = (i = j) \<Longrightarrow>
   inner (ss ! j) = Some p \<Longrightarrow> waiting_for (pid p) ss k = Some (k + j, p)"
proof (induction ss arbitrary: j k)
  case Nil
  then show ?case by simp
next
  case (Cons s ss)
  show ?case
  proof (cases j)
    case 0
    with Cons.prems show ?thesis by auto
  next
    case (Suc j')
    from Cons.prems(2) Suc have c: "closed s" by auto
    have "\<forall>i < length ss. (\<not> closed (ss ! i)) = (i = j')"
    proof (intro allI impI)
      fix i assume "i < length ss"
      with Cons.prems(2) [rule_format, of "Suc i"] Suc show "(\<not> closed (ss ! i)) = (i = j')" by simp
    qed
    with Cons.IH [of j' "Suc k"] Cons.prems(1,3) Suc
    have "waiting_for (pid p) ss (Suc k) = Some (Suc k + j', p)" by simp
    with c Suc show ?thesis by (simp split: option.splits)
  qed
qed

lemma elapse_fields:
  "clock (elapse k w) = clock w + int k" "requests (elapse k w) = requests w"
  "results (elapse k w) = results w" "savePingCalls (elapse k w) = savePingCalls w"
  "settingsTarget (elapse k w) = settingsTarget w" "transport_of (elapse k w) = transport_of w"
  "length (subscriptions (elapse k w)) = length (subscriptions w)"
  "j < length (subscriptions w) \<Longrightarrow>
     subscriptions (elapse k w) ! j = (subscriptions w ! j)\<lparr>due := map_option (\<lambda>d. d - k) (due (subscriptions w ! j))\<rparr>"
  by (simp_all add: elapse_def transport_of_def)

lemma transport_of_cong:
  "hasTauri w' = hasTauri w \<Longrightarrow> nativePlatform w' = nativePlatform w \<Longrightarrow>
   transport_of w' = transport_of w"
  by (simp add: transport_of_def)

lemma timer_fires_fields:
  "clock (timer_fires i w) = clock w" "settingsTarget (timer_fires i w) = settingsTarget w"
  "transport_of (timer_fires i w) = transport_of w"
  "requests (timer_fires i w) = requests w @ [(clock w, transport_of w, settingsTarget w)]"
  "length (subscriptions (timer_fires i w)) = length (subscriptions w)"
  by (simp_all add: timer_fires_eq transport_of_def)

lemma advance_to_tick:
  assumes "running j w" and "due (subscriptions w ! j) = Some d" and "0 < d"
  shows "advance d w = timer_fires j (elapse d w)"
proof -
  from assms(3) obtain d' where d: "d = Suc d'" by (cases d) auto
  from assms(1) have j: "j < length (subscriptions w)" by (simp add: running_def)
  have "advance d w = advance 1 (advance d' w)"
    using advance_add [of d' 1 w] by (simp add: d)
  also have "advance d' w = elapse d' w"
    using assms(1,2) by (rule advance_idle) (simp add: d)
  also have "advance 1 (elapse d' w) = fire_due (elapse d w)"
    by (simp add: elapse1_elapse elapse_elapse d)
  also have "\<dots> = timer_fires j (elapse d w)"
    using assms(2) j by (simp add: fire_due_running [OF running_elapse [OF assms(1)]] elapse_fields)
  finally show ?thesis .
qed

lemma step_Advance_over_tick:
  assumes "armed j P d w" and "0 < P" and "d' < P" and "P \<le> 2147483647"
  shows "step (Advance (d + d')) w = elapse d' (timer_fires j (elapse d w))"
proof -
  from assms(1) have r: "running j w" and p: "period (subscriptions w ! j) = int P"
    and du: "due (subscriptions w ! j) = Some d"
    by (simp_all add: armed_def)
  from r have j: "j < length (subscriptions w)" by (simp add: running_def)
  have fired: "running j (timer_fires j (elapse d w))"
    by (intro running_timer_fires running_elapse r)
  have due': "due (subscriptions (timer_fires j (elapse d w)) ! j) = Some P"
    using j p assms(2,4) by (simp add: timer_fires_eq elapse_fields host_delay_def)
  have idle: "advance d' (timer_fires j (elapse d w)) = elapse d' (timer_fires j (elapse d w))"
    using fired due' assms(3) by (rule advance_idle)
  show ?thesis
  proof (cases "d = 0")
    case True
    with du have "fire_due w = timer_fires j w" by (simp add: fire_due_running [OF r])
    with True idle show ?thesis by (simp add: elapse_0)
  next
    case False
    with du have f: "fire_due w = w" by (simp add: fire_due_running [OF r])
    have "advance (d + d') w = advance d' (advance d w)" by (rule advance_add)
    also have "advance d w = timer_fires j (elapse d w)"
      using r du False by (intro advance_to_tick) auto
    finally show ?thesis by (simp add: f idle)
  qed
qed

lemma probe_cycle:
  fixes out :: "rat settled"
  assumes "armed j P d w" and "0 < P" and "d' < P" and "P \<le> 2147483647"
  defines "m \<equiv> measured \<lparr>pid = length (requests w), via = transport_of w, started = clock w + int d\<rparr>
                  (clock w + int d + int d') out"
  defines "w' \<equiv> settle (length (requests w)) out (step (Advance (d + d')) w)"
  shows "armed j P (P - d') w'"
    and "results w' = keep_last_50 (results w) m"
    and "savePingCalls w' = savePingCalls w @ [(m, settingsTarget w)]"
    and "requests w' = requests w @ [(clock w + int d, transport_of w, settingsTarget w)]"
    and "clock w' = clock w + int d + int d'"
    and "settingsTarget w' = settingsTarget w"
    and "transport_of w' = transport_of w"
    and "inner (subscriptions w' ! j) = None"
proof -
  from assms(1) have r: "running j w" and p: "period (subscriptions w ! j) = int P"
    by (simp_all add: armed_def)
  from r have j: "j < length (subscriptions w)" by (simp add: running_def)
  let ?p = "\<lparr>pid = length (requests w), via = transport_of w, started = clock w + int d\<rparr>"
  let ?a = "elapse d' (timer_fires j (elapse d w))"
  have a: "step (Advance (d + d')) w = ?a"
    using assms(1-4) by (rule step_Advance_over_tick)
  have ra: "running j ?a"
    by (intro running_elapse running_timer_fires r)
  have ja: "j < length (subscriptions ?a)" using ra by (simp add: running_def)
  have sub: "subscriptions ?a ! j = (subscriptions w ! j)\<lparr>due := Some (P - d'), inner := Some ?p\<rparr>"
    using j p assms(2,4) by (simp add: elapse_fields timer_fires_eq host_delay_def)
  have "waiting_for (pid ?p) (subscriptions ?a) 0 = Some (0 + j, ?p)"
    using ja ra sub by (intro waiting_for_running) (simp_all add: running_def)
  then have w': "w' = deliver j ?p out ?a"
    unfolding w'_def a by (simp add: settle_def)
  have env: "clock ?a = clock w + int d + int d'" "settingsTarget ?a = settingsTarget w"
    "transport_of ?a = transport_of w"
    "requests ?a = requests w @ [(clock w + int d, transport_of w, settingsTarget w)]"
    "results ?a = results w" "savePingCalls ?a = savePingCalls w"
    by (simp_all add: elapse_fields timer_fires_fields frame_timer_fires)
  show "results w' = keep_last_50 (results w) m"
    and "savePingCalls w' = savePingCalls w @ [(m, settingsTarget w)]"
    and "requests w' = requests w @ [(clock w + int d, transport_of w, settingsTarget w)]"
    and "clock w' = clock w + int d + int d'"
    and "settingsTarget w' = settingsTarget w"
    by (simp_all add: w' deliver_eq on_result_eq env m_def)
  have "transport_of w' = transport_of ?a"
    by (rule transport_of_cong) (simp_all add: w' deliver_eq on_result_eq)
  then show "transport_of w' = transport_of w" by (simp add: env)
  have subs: "subscriptions w' = (subscriptions ?a)[j := (subscriptions ?a ! j)\<lparr>inner := None\<rparr>]"
    by (simp add: w' deliver_eq on_result_eq)
  show "armed j P (P - d') w'"
    using ra ja p sub by (auto simp: armed_def running_def subs nth_list_update)
  show "inner (subscriptions w' ! j) = None"
    using ja by (simp add: subs)
qed


lemma armed_startMonitoring:
  assumes "well_formed w"
    and "(case ov of Some ms \<Rightarrow> ms | None \<Rightarrow> settingsInterval w * 1000) = int P"
  shows "armed (length (subscriptions w)) P 0 (startMonitoring ov w)"
  using running_startMonitoring [OF assms(1), of ov] assms(2)
  by (simp add: armed_def startMonitoring_eq length_subscriptions_stopMonitoring nth_append)

lemma startMonitoring_fields:
  "results (startMonitoring ov w) = results w" "savePingCalls (startMonitoring ov w) = savePingCalls w"
  "requests (startMonitoring ov w) = requests w" "clock (startMonitoring ov w) = clock w"
  "settingsTarget (startMonitoring ov w) = settingsTarget w"
  "transport_of (startMonitoring ov w) = transport_of w"
  by (simp_all add: startMonitoring_eq stopMonitoring_eq transport_of_def)

text \<open>
  Failures that arrive in time. With a period \<open>P\<close> between 1 and 2147483647, when each
  of four consecutive probes settles before the next tick (after \<open>d0, d1, d2, d3 < P\<close>
  milliseconds), the first three with a rejection and the fourth with a value, exactly
  four measurements are published and handed to \<^verbatim>\<open>savePing\<close>: three error results
  and then an \<^verbatim>\<open>'ok'\<close> one. The subscription stays open and its timer stays
  scheduled.
\<close>

theorem failures_do_not_stop_the_loop:
  fixes l :: rat and e0 e1 e2 :: failure
  assumes "well_formed w"
    and "(case ov of Some ms \<Rightarrow> ms | None \<Rightarrow> settingsInterval w * 1000) = int P"
    and "0 < P" and "d0 < P" and "d1 < P" and "d2 < P" and "d3 < P" and "P \<le> 2147483647"
  defines "n \<equiv> length (requests w)"
  defines "evs \<equiv> [Start ov,
                   Advance d0, Settle n (Rejected e0),
                   Advance (P - d0 + d1), Settle (n + 1) (Rejected e1),
                   Advance (P - d1 + d2), Settle (n + 2) (Rejected e2),
                   Advance (P - d2 + d3), Settle (n + 3) (Resolved l)]"
  defines "published \<equiv>
     [\<lparr>latencyMs = None, timestamp = clock w + int d0, status = StatusError\<rparr>,
      \<lparr>latencyMs = None, timestamp = clock w + int P + int d1, status = StatusError\<rparr>,
      \<lparr>latencyMs = None, timestamp = clock w + 2 * int P + int d2, status = StatusError\<rparr>,
      \<lparr>latencyMs = Some (if transport_of w = TauriPing then l else of_nat d3),
        timestamp = clock w + 3 * int P + int d3, status = StatusOk\<rparr>]"
  shows "savePingCalls (run evs w) = savePingCalls w @ map (\<lambda>m. (m, settingsTarget w)) published \<and>
         results (run evs w) = foldl keep_last_50 (results w) published \<and>
         \<not> closed (subscriptions (run evs w) ! length (subscriptions w)) \<and>
         due (subscriptions (run evs w) ! length (subscriptions w)) = Some (P - d3)"
proof -
  let ?j = "length (subscriptions w)"
  define w1 where "w1 = startMonitoring ov w"
  define w2 where "w2 = settle (length (requests w1)) (Rejected e0) (step (Advance (0 + d0)) w1)"
  define w3 where "w3 = settle (length (requests w2)) (Rejected e1) (step (Advance ((P - d0) + d1)) w2)"
  define w4 where "w4 = settle (length (requests w3)) (Rejected e2) (step (Advance ((P - d1) + d2)) w3)"
  define w5 where "w5 = settle (length (requests w4)) (Resolved l) (step (Advance ((P - d2) + d3)) w4)"
  have a1: "armed ?j P 0 w1"
    unfolding w1_def using assms(1,2) by (rule armed_startMonitoring)
  note f1 = startMonitoring_fields [of ov w, folded w1_def]
  note c2 = probe_cycle [OF a1 assms(3,4,8), of "Rejected e0", folded w2_def]
  note c3 = probe_cycle [OF c2(1) assms(3,5,8), of "Rejected e1", folded w3_def]
  note c4 = probe_cycle [OF c3(1) assms(3,6,8), of "Rejected e2", folded w4_def]
  note c5 = probe_cycle [OF c4(1) assms(3,7,8), of "Resolved l", folded w5_def]
  have lens: "length (requests w1) = n" "length (requests w2) = n + 1"
    "length (requests w3) = n + 2" "length (requests w4) = n + 3"
    by (simp_all add: n_def f1 c2 c3 c4)
  have s1: "step (Start ov) w = w1" by (simp add: w1_def)
  have s2: "step (Settle n (Rejected e0)) (step (Advance d0) w1) = w2"
    unfolding w2_def lens by simp
  have s3: "step (Settle (n + 1) (Rejected e1)) (step (Advance (P - d0 + d1)) w2) = w3"
    unfolding w3_def lens by simp
  have s4: "step (Settle (n + 2) (Rejected e2)) (step (Advance (P - d1 + d2)) w3) = w4"
    unfolding w4_def lens by simp
  have s5: "step (Settle (n + 3) (Resolved l)) (step (Advance (P - d2 + d3)) w4) = w5"
    unfolding w5_def lens by simp
  have run: "run evs w = w5"
    by (simp only: evs_def run_Cons run_Nil s1 s2 s3 s4 s5)
  have clocks: "clock w2 = clock w + int d0" "clock w3 = clock w + int P + int d1"
    "clock w4 = clock w + 2 * int P + int d2" "clock w5 = clock w + 3 * int P + int d3"
    using assms(4-6) by (simp_all add: c2 c3 c4 c5 f1 of_nat_diff)
  have starts: "clock w4 + int (P - d2) = clock w + 3 * int P"
    using assms(6) by (simp add: clocks of_nat_diff)
  have env: "settingsTarget w4 = settingsTarget w" "settingsTarget w3 = settingsTarget w"
    "settingsTarget w2 = settingsTarget w" "transport_of w4 = transport_of w"
    by (simp_all add: c2 c3 c4 f1)
  have m: "results w5 = foldl keep_last_50 (results w) published"
    "savePingCalls w5 = savePingCalls w @ map (\<lambda>m. (m, settingsTarget w)) published"
    using assms(4-7)
    by (simp_all add: c2 c3 c4 c5 f1 env starts published_def measured_def error_result_def
        of_nat_diff algebra_simps)
  from c5(1) have "\<not> closed (subscriptions w5 ! ?j)" "due (subscriptions w5 ! ?j) = Some (P - d3)"
    by (simp_all add: armed_def running_def)
  with m show ?thesis by (simp add: run)
qed


theorem failures_do_not_stop_the_loop_witness:
  "map (\<lambda>c. status (fst c))
     (savePingCalls (run [Start (Some 10),
                          Advance 1, Settle 0 (Rejected Timeout),
                          Advance 11, Settle 1 (Rejected DnsFailure),
                          Advance 11, Settle 2 (Rejected ConnectionRefused),
                          Advance 11, Settle 3 (Resolved 42)] (initial_world None))) =
     [StatusError, StatusError, StatusError, StatusOk] \<and>
   due (subscriptions (run [Start (Some 10),
                          Advance 1, Settle 0 (Rejected Timeout),
                          Advance 11, Settle 1 (Rejected DnsFailure),
                          Advance 11, Settle 2 (Rejected ConnectionRefused),
                          Advance 11, Settle 3 (Resolved 42)] (initial_world None)) ! 0) = Some 6"
proof -
  have i: "(case Some 10 of Some ms \<Rightarrow> ms | None \<Rightarrow> settingsInterval (initial_world None) * 1000) = int 10"
    by simp
  have e: "subscriptions (initial_world None) = []" "requests (initial_world None) = []"
    "savePingCalls (initial_world None) = []"
    by (simp_all add: initial_world_def)
  have a: "length (requests (initial_world None)) = 0" "0 + 1 = (1::nat)" "0 + 2 = (2::nat)"
    "0 + 3 = (3::nat)" "10 - 1 + 2 = (11::nat)" "10 - 2 + 3 = (11::nat)" "10 - 3 + 4 = (11::nat)"
    by (simp_all add: e)
  note t = failures_do_not_stop_the_loop [OF well_formed_initial_world i, of 1 2 3 4
      Timeout DnsFailure ConnectionRefused 42, unfolded a]
  from t show ?thesis by (simp add: e)
qed

subsection \<open>What ends a loop, and what a tick does to the probe in flight\<close>

text \<open>
  No event other than a stop or a start closes a subscription or changes the one the
  service references; with a period that fits, the loop stays scheduled through every
  such event and issues a further probe within the next period. A probe that is not the
  one the open subscription waits for publishes nothing when it settles: so every probe
  that an emission of the timer has replaced.
\<close>

lemma only_stop_or_start_closes_the_loop:
  assumes "e \<noteq> Stop" and "\<forall>ov. e \<noteq> Start ov"
  shows "map closed (subscriptions (step e w)) = map closed (subscriptions w) \<and>
         pollingSubscription (step e w) = pollingSubscription w"
proof (cases e)
  case (Advance k)
  then show ?thesis
    using shape_advance [of k "fire_due w"] shape_fire_due [of w] by simp
next
  case (Settle n out)
  then show ?thesis using shape_settle [of n out w] by simp
next
  case (UpdateConfig t i)
  then show ?thesis by (simp add: updateMonitoringConfig_def)
qed (use assms in simp_all)

lemma waiting_for_other:
  "\<forall>s \<in> set ss. closed s \<or> (\<forall>p. inner s = Some p \<longrightarrow> pid p \<noteq> n) \<Longrightarrow> waiting_for n ss k = None"
  by (induction ss arbitrary: k) (auto split: option.splits)

lemma superseded_probe_is_dropped:
  assumes "running j w" and "n < length (requests w)"
  shows "settle n out (timer_fires j w) = timer_fires j w"
proof -
  let ?ss = "subscriptions (timer_fires j w)"
  from assms(1) have j: "j < length (subscriptions w)" by (simp add: running_def)
  have "closed s \<or> (\<forall>p. inner s = Some p \<longrightarrow> pid p \<noteq> n)" if "s \<in> set ?ss" for s
  proof -
    from that obtain i where i: "i < length ?ss" "?ss ! i = s" by (auto simp: in_set_conv_nth)
    show ?thesis
    proof (cases "i = j")
      case True
      with i j assms(2) show ?thesis by (auto simp: timer_fires_eq)
    next
      case False
      with i have "s = subscriptions w ! i" "i < length (subscriptions w)"
        by (auto simp: timer_fires_eq)
      with False running_others_closed [OF assms(1)] show ?thesis by simp
    qed
  qed
  then have "waiting_for n ?ss 0 = None" by (intro waiting_for_other) blast
  then show ?thesis by (simp add: settle_def)
qed


lemma armed_fire_due:
  assumes "armed j P d w" and "d \<le> P" and "0 < P" and "P \<le> 2147483647"
  shows "\<exists>d' \<le> P. armed j P d' (fire_due w)"
proof -
  from assms(1) have r: "running j w" and p: "period (subscriptions w ! j) = int P"
    and du: "due (subscriptions w ! j) = Some d"
    by (simp_all add: armed_def)
  from r have j: "j < length (subscriptions w)" by (simp add: running_def)
  show ?thesis
  proof (cases "d = 0")
    case True
    then have f: "fire_due w = timer_fires j w" using du by (simp add: fire_due_running [OF r])
    have "armed j P P (timer_fires j w)"
      using running_timer_fires [OF r] j p assms(3,4)
      by (simp add: armed_def timer_fires_eq host_delay_def)
    then show ?thesis unfolding f by blast
  next
    case False
    then have "fire_due w = w" using du by (simp add: fire_due_running [OF r])
    with assms(1,2) show ?thesis by auto
  qed
qed

lemma armed_elapse1: "armed j P d w \<Longrightarrow> armed j P (d - 1) (elapse1 w)"
  by (auto simp: armed_def running_def elapse1_def)

lemma armed_advance:
  assumes "armed j P d w" and "d \<le> P" and "0 < P" and "P \<le> 2147483647"
  shows "\<exists>d' \<le> P. armed j P d' (advance k w)"
  using assms(1,2)
proof (induction k arbitrary: w d)
  case 0
  then show ?case by auto
next
  case (Suc k)
  have "armed j P (d - 1) (elapse1 w)" using Suc.prems(1) by (rule armed_elapse1)
  moreover have "d - 1 \<le> P" using Suc.prems(2) by simp
  ultimately obtain d' where "d' \<le> P" "armed j P d' (fire_due (elapse1 w))"
    using armed_fire_due [OF _ _ assms(3,4)] by blast
  then show ?case using Suc.IH by simp
qed

lemma armed_settle: "armed j P d w \<Longrightarrow> armed j P d (settle n out w)"
proof (cases "waiting_for n (subscriptions w) 0")
  case None
  assume "armed j P d w"
  with None show ?thesis by (simp add: settle_def)
next
  case (Some ip)
  assume a: "armed j P d w"
  obtain i p where "ip = (i, p)" by (cases ip)
  with Some have s: "subscriptions (settle n out w) =
      (subscriptions w)[i := (subscriptions w ! i)\<lparr>inner := None\<rparr>]"
    by (simp add: settle_def deliver_eq on_result_eq)
  from a show ?thesis
    by (auto simp: armed_def running_def s nth_update_total)
qed

lemma only_stop_or_start_halts_ticking:
  assumes "armed j P d w" and "d \<le> P" and "0 < P" and "P \<le> 2147483647"
    and "e \<noteq> Stop" and "\<forall>ov. e \<noteq> Start ov"
  shows "\<exists>d' \<le> P. armed j P d' (step e w)"
proof (cases e)
  case (Advance k)
  obtain d1 where "d1 \<le> P" "armed j P d1 (fire_due w)"
    using armed_fire_due [OF assms(1-4)] by blast
  then show ?thesis using armed_advance [OF _ _ assms(3,4), of j d1 "fire_due w" k]
    by (simp add: Advance)
next
  case (Settle n out)
  then show ?thesis using armed_settle [OF assms(1), of n out] assms(2) by auto
next
  case (UpdateConfig t i)
  then show ?thesis using assms(1,2)
    by (auto simp: updateMonitoringConfig_def armed_def running_def)
qed (use assms in simp_all)

lemma armed_ticks_again:
  assumes "armed j P d w" and "d \<le> P" and "0 < P" and "P \<le> 2147483647"
  shows "length (requests (step (Advance P) w)) > length (requests w)"
proof -
  from assms(1) have r: "running j w" and p: "period (subscriptions w ! j) = int P"
    and du: "due (subscriptions w ! j) = Some d"
    by (simp_all add: armed_def)
  show ?thesis
  proof (cases "d = 0")
    case True
    then have f: "fire_due w = timer_fires j w" using du by (simp add: fire_due_running [OF r])
    obtain ms where "requests (advance P (timer_fires j w)) = requests (timer_fires j w) @ ms"
    proof -
      have r2: "running j (timer_fires j w)" using r by (rule running_timer_fires)
      from r have j: "j < length (subscriptions w)" by (simp add: running_def)
      have d2: "due (subscriptions (timer_fires j w) ! j) = Some P"
        "period (subscriptions (timer_fires j w) ! j) = int P"
        using j p assms(3,4) by (simp_all add: timer_fires_eq host_delay_def)
      from requests_advance [OF r2 d2(1) assms(3) d2(2) assms(3,4), of P] that show ?thesis by blast
    qed
    then show ?thesis by (simp add: f timer_fires_fields)
  next
    case False
    then have f: "fire_due w = w" using du by (simp add: fire_due_running [OF r])
    have "0 < d" using False by simp
    from requests_advance [OF r du this p assms(3,4), of P] assms(2)
    show ?thesis by (simp add: f tick_count_def)
  qed
qed


lemma settle_not_waiting:
  assumes "running j w" and "\<forall>p. inner (subscriptions w ! j) = Some p \<longrightarrow> pid p \<noteq> n"
  shows "settle n out w = w"
proof -
  let ?ss = "subscriptions w"
  have "closed s \<or> (\<forall>p. inner s = Some p \<longrightarrow> pid p \<noteq> n)" if "s \<in> set ?ss" for s
  proof -
    from that obtain i where i: "i < length ?ss" "?ss ! i = s" by (auto simp: in_set_conv_nth)
    show ?thesis
    proof (cases "i = j")
      case True
      with i assms(2) show ?thesis by auto
    next
      case False
      with i running_others_closed [OF assms(1)] show ?thesis by auto
    qed
  qed
  then have "waiting_for n ?ss 0 = None" by (intro waiting_for_other) blast
  then show ?thesis by (simp add: settle_def)
qed

lemma tick_fields:
  assumes "armed j P d w" and "0 < P" and "d' < P" and "P \<le> 2147483647"
  defines "a \<equiv> step (Advance (d + d')) w"
  shows "armed j P (P - d') a"
    and "inner (subscriptions a ! j) =
           Some \<lparr>pid = length (requests w), via = transport_of w, started = clock w + int d\<rparr>"
    and "results a = results w"
    and "savePingCalls a = savePingCalls w"
    and "requests a = requests w @ [(clock w + int d, transport_of w, settingsTarget w)]"
    and "clock a = clock w + int d + int d'"
    and "settingsTarget a = settingsTarget w"
    and "transport_of a = transport_of w"
proof -
  from assms(1) have r: "running j w" and p: "period (subscriptions w ! j) = int P"
    by (simp_all add: armed_def)
  from r have j: "j < length (subscriptions w)" by (simp add: running_def)
  let ?p = "\<lparr>pid = length (requests w), via = transport_of w, started = clock w + int d\<rparr>"
  let ?a = "elapse d' (timer_fires j (elapse d w))"
  have a: "a = ?a"
    unfolding a_def using assms(1-4) by (rule step_Advance_over_tick)
  have ra: "running j ?a"
    by (intro running_elapse running_timer_fires r)
  have sub: "subscriptions ?a ! j = (subscriptions w ! j)\<lparr>due := Some (P - d'), inner := Some ?p\<rparr>"
    using j p assms(2,4) by (simp add: elapse_fields timer_fires_eq host_delay_def)
  show "armed j P (P - d') a"
    using ra p sub by (simp add: armed_def a)
  show "inner (subscriptions a ! j) = Some ?p"
    by (simp add: a sub)
  show "results a = results w" "savePingCalls a = savePingCalls w"
    "requests a = requests w @ [(clock w + int d, transport_of w, settingsTarget w)]"
    "clock a = clock w + int d + int d'" "settingsTarget a = settingsTarget w"
    "transport_of a = transport_of w"
    by (simp_all add: a elapse_fields timer_fires_fields frame_timer_fires)
qed

text \<open>
  Failures that arrive late. With a period \<open>P\<close> between 1 and 2147483647, three
  consecutive probes that are rejected after the next tick (the first two \<open>x\<close>
  milliseconds after it, the third once its successor has succeeded) and a fourth that
  resolves within \<open>y < P\<close> milliseconds: four probes are issued, one period apart, and
  the only measurement published and handed to \<^verbatim>\<open>savePing\<close> is the successful one.
\<close>

theorem slow_failures_are_not_published:
  fixes l :: rat and e0 e1 e2 :: failure
  assumes "well_formed w"
    and "(case ov of Some ms \<Rightarrow> ms | None \<Rightarrow> settingsInterval w * 1000) = int P"
    and "0 < P" and "P \<le> 2147483647" and "x < P" and "y < P"
  defines "n \<equiv> length (requests w)"
  defines "evs \<equiv> [Start ov, Advance 0,
                   Advance (P + x), Settle n (Rejected e0),
                   Advance P, Settle (n + 1) (Rejected e1),
                   Advance (P - x + y), Settle (n + 3) (Resolved l), Settle (n + 2) (Rejected e2)]"
  shows "requests (run evs w) =
           requests w @ map (\<lambda>k. (clock w + int k * int P, transport_of w, settingsTarget w)) [0, 1, 2, 3] \<and>
         savePingCalls (run evs w) =
           savePingCalls w @
             [(\<lparr>latencyMs = Some (if transport_of w = TauriPing then l else of_nat y),
                timestamp = clock w + 3 * int P + int y, status = StatusOk\<rparr>, settingsTarget w)] \<and>
         results (run evs w) =
           keep_last_50 (results w)
             \<lparr>latencyMs = Some (if transport_of w = TauriPing then l else of_nat y),
               timestamp = clock w + 3 * int P + int y, status = StatusOk\<rparr>"
proof -
  let ?j = "length (subscriptions w)"
  define w1 where "w1 = startMonitoring ov w"
  define a1 where "a1 = step (Advance (0 + 0)) w1"
  define a2 where "a2 = step (Advance (P + x)) a1"
  define a3 where "a3 = step (Advance ((P - x) + x)) a2"
  define w5 where "w5 = settle (length (requests a3)) (Resolved l) (step (Advance ((P - x) + y)) a3)"
  have ar1: "armed ?j P 0 w1"
    unfolding w1_def using assms(1,2) by (rule armed_startMonitoring)
  note f1 = startMonitoring_fields [of ov w, folded w1_def]
  note t1 = tick_fields [OF ar1 assms(3) assms(3) assms(4), folded a1_def]
  have ar1': "armed ?j P P a1" using t1(1) by simp
  note t2 = tick_fields [OF ar1' assms(3,5,4), folded a2_def]
  note t3 = tick_fields [OF t2(1) assms(3,5,4), folded a3_def]
  note c5 = probe_cycle [OF t3(1) assms(3,6,4), of "Resolved l", folded w5_def]
  have lens: "length (requests w1) = n" "length (requests a1) = n + 1"
    "length (requests a2) = n + 2" "length (requests a3) = n + 3"
    by (simp_all add: n_def f1 t1 t2 t3)
  have run2: "running ?j a2" "running ?j a3" "running ?j w5"
    using t2(1) t3(1) c5(1) by (simp_all add: armed_def)
  have s1: "step (Start ov) w = w1" by (simp add: w1_def)
  have s2: "step (Advance 0) w1 = a1" by (simp add: a1_def)
  have n2: "settle n (Rejected e0) a2 = a2"
    using settle_not_waiting [OF run2(1), of n "Rejected e0"] t2(2) lens by simp
  have a2': "step (Advance (P + x)) a1 = a2" by (simp only: a2_def)
  have s3: "step (Settle n (Rejected e0)) (step (Advance (P + x)) a1) = a2"
    unfolding a2' by (simp only: step.simps n2)
  have px: "P - x + x = P" using assms(5) by simp
  have n3: "settle (n + 1) (Rejected e1) a3 = a3"
    using settle_not_waiting [OF run2(2), of "n + 1" "Rejected e1"] t3(2) lens by simp
  have a3': "step (Advance P) a2 = a3" by (simp only: a3_def px)
  have s4: "step (Settle (n + 1) (Rejected e1)) (step (Advance P) a2) = a3"
    unfolding a3' by (simp only: step.simps n3)
  have s5: "step (Settle (n + 3) (Resolved l)) (step (Advance (P - x + y)) a3) = w5"
    unfolding w5_def lens by simp
  have n6: "settle (n + 2) (Rejected e2) w5 = w5"
    using settle_not_waiting [OF run2(3), of "n + 2" "Rejected e2"] c5(8) by simp
  have s6: "step (Settle (n + 2) (Rejected e2)) w5 = w5"
    by (simp only: step.simps n6)
  have run: "run evs w = w5"
    by (simp only: evs_def run_Cons run_Nil s1 s2 s3 s4 s5 s6)
  have clocks: "clock a3 + int (P - x) = clock w + 3 * int P"
    using assms(5) by (simp add: t1 t2 t3 f1 of_nat_diff)
  have env: "settingsTarget a3 = settingsTarget w" "transport_of a3 = transport_of w"
    "results a3 = results w" "savePingCalls a3 = savePingCalls w"
    by (simp_all add: t1 t2 t3 f1)
  have req: "requests w5 =
      requests w @ map (\<lambda>k. (clock w + int k * int P, transport_of w, settingsTarget w)) [0, 1, 2, 3]"
    using assms(5) by (simp add: c5 t1 t2 t3 f1 of_nat_diff algebra_simps)
  have m: "measured \<lparr>pid = length (requests a3), via = transport_of w, started = clock a3 + int (P - x)\<rparr>
             (clock a3 + int (P - x) + int y) (Resolved l) =
           \<lparr>latencyMs = Some (if transport_of w = TauriPing then l else of_nat y),
             timestamp = clock w + 3 * int P + int y, status = StatusOk\<rparr>"
    by (simp add: measured_def env clocks)
  show ?thesis
    unfolding run using req c5(2,3) by (simp only: m env simp_thms)
qed

text \<open>
  Claim C4. With \<^verbatim>\<open>DEFAULT_SETTINGS\<close> (a probe every 5000 ms), three consecutive
  probes whose transport fails only after the next tick (6000, 6000 and 5020 ms after
  the probe was issued) and a fourth that succeeds after 20 ms:
  four probes are issued, at 0, 5000, 10000 and 15000, and a single measurement is
  published, the successful one, where the claim has four. Each failure arrives after
  the next tick, when \<^verbatim>\<open>switchMap\<close> has already dropped the probe; no failure is
  recorded while failures are slower than the interval. The loop itself goes on: only a
  stop or a start ends it.
\<close>

theorem slow_failures_at_the_default_interval:
  "savePingCalls (run [Start None, Advance 0,
                       Advance 6000, Settle 0 (Rejected Timeout),
                       Advance 5000, Settle 1 (Rejected Timeout),
                       Advance 4020, Settle 3 (Resolved 20), Settle 2 (Rejected Timeout)]
                    (initial_world None)) =
     [(\<lparr>latencyMs = Some 20, timestamp = 15020, status = StatusOk\<rparr>, ''8.8.8.8'')] \<and>
   map fst (requests (run [Start None, Advance 0,
                       Advance 6000, Settle 0 (Rejected Timeout),
                       Advance 5000, Settle 1 (Rejected Timeout),
                       Advance 4020, Settle 3 (Resolved 20), Settle 2 (Rejected Timeout)]
                    (initial_world None))) = [0, 5000, 10000, 15000]"
proof -
  have i: "(case None of Some ms \<Rightarrow> ms | None \<Rightarrow> settingsInterval (initial_world None) * 1000) = int 5000"
    by (simp add: initial_world_def)
  have a: "length (requests (initial_world None)) = 0" "0 + 1 = (1::nat)" "0 + 2 = (2::nat)"
    "0 + 3 = (3::nat)" "5000 + 1000 = (6000::nat)" "5000 - 1000 + 20 = (4020::nat)"
    by (simp_all add: initial_world_def)
  note t = slow_failures_are_not_published [OF well_formed_initial_world i, of 1000 20
      Timeout Timeout 20 Timeout, unfolded a]
  from t show ?thesis
    by (simp add: initial_world_def transport_of_def)
qed

text \<open>
  The same on a run short enough to evaluate step by step: with a period of 2 ms and
  failures that take 3 ms, four probes are issued, three fail and the fourth succeeds,
  and one measurement is published.
\<close>

theorem late_failures_publish_nothing:
  "map fst (requests (run [Start (Some 2),
                  Advance 3, Settle 0 (Rejected Timeout),
                  Advance 2, Settle 1 (Rejected Timeout),
                  Advance 1, Settle 3 (Resolved 1),
                  Advance 1, Settle 2 (Rejected Timeout)] (initial_world None))) = [0, 2, 4, 6] \<and>
   results (run [Start (Some 2),
                  Advance 3, Settle 0 (Rejected Timeout),
                  Advance 2, Settle 1 (Rejected Timeout),
                  Advance 1, Settle 3 (Resolved 1),
                  Advance 1, Settle 2 (Rejected Timeout)] (initial_world None)) =
     [\<lparr>latencyMs = Some 1, timestamp = 6, status = StatusOk\<rparr>]"
  by code_simp

subsection \<open>The history across a restart\<close>

lemma keep_last_50_drop:
  "keep_last_50 (drop (length xs - 50) xs) m = drop (length (xs @ [m]) - 50) (xs @ [m])"
proof -
  let ?b = "length xs - 50"
  have "keep_last_50 (drop ?b xs) m = drop (Suc (length xs - ?b) - 50) (drop ?b (xs @ [m]))"
    by (simp add: keep_last_50_eq)
  also have "\<dots> = drop (length (xs @ [m]) - 50) (xs @ [m])"
    by (simp only: drop_drop) (rule arg_cong [where f = "\<lambda>k. drop k (xs @ [m])"], simp)
  finally show ?thesis .
qed

lemma foldl_keep_last_50_from:
  "length h \<le> 50 \<Longrightarrow> foldl keep_last_50 h ms = drop (length (h @ ms) - 50) (h @ ms)"
proof (induction ms rule: rev_induct)
  case Nil
  then show ?case by simp
next
  case (snoc m ms)
  have "foldl keep_last_50 h (ms @ [m]) = keep_last_50 (foldl keep_last_50 h ms) m"
    by simp
  also have "\<dots> = keep_last_50 (drop (length (h @ ms) - 50) (h @ ms)) m"
    by (simp only: snoc.IH [OF snoc.prems])
  also have "\<dots> = drop (length ((h @ ms) @ [m]) - 50) ((h @ ms) @ [m])"
    by (rule keep_last_50_drop)
  finally show ?case by (simp only: append_assoc)
qed

lemma stopMonitoring_fields:
  "results (stopMonitoring w) = results w" "savePingCalls (stopMonitoring w) = savePingCalls w"
  "requests (stopMonitoring w) = requests w" "clock (stopMonitoring w) = clock w"
  "settingsTarget (stopMonitoring w) = settingsTarget w"
  "settingsInterval (stopMonitoring w) = settingsInterval w"
  "transport_of (stopMonitoring w) = transport_of w"
  by (simp_all add: stopMonitoring_eq transport_of_def)

text \<open>
  Claim C10. Neither \<^verbatim>\<open>stopMonitoring\<close> nor \<^verbatim>\<open>startMonitoring\<close> touches the
  results or the record of what was handed to \<^verbatim>\<open>savePing\<close>. After a stop and a
  start, whatever happens in the new run, the history is the old history followed by
  the measurements delivered since, in order, cut to its last 50. In particular, after
  a stop, a start and one probe of the new run that settles before the next tick, the
  history is the old one with that probe's measurement appended, cut to its last 50.
\<close>

theorem restart_keeps_history:
  fixes out :: "rat settled"
  assumes "length (results w) \<le> 50" and "well_formed w"
    and "(case ov of Some ms \<Rightarrow> ms | None \<Rightarrow> settingsInterval w * 1000) = int P"
    and "0 < P" and "P \<le> 2147483647" and "d < P"
  shows "results (stopMonitoring w) = results w \<and>
   results (startMonitoring ov w) = results w \<and>
   results (startMonitoring ov (stopMonitoring w)) = results w \<and>
   savePingCalls (startMonitoring ov (stopMonitoring w)) = savePingCalls w \<and>
   take (length (savePingCalls w)) (savePingCalls (run evs (startMonitoring ov (stopMonitoring w)))) =
     savePingCalls w \<and>
   results (run evs (startMonitoring ov (stopMonitoring w))) =
     drop (length (results w @ map fst (drop (length (savePingCalls w))
             (savePingCalls (run evs (startMonitoring ov (stopMonitoring w)))))) - 50)
          (results w @ map fst (drop (length (savePingCalls w))
             (savePingCalls (run evs (startMonitoring ov (stopMonitoring w)))))) \<and>
   results (run [Stop, Start ov, Advance d, Settle (length (requests w)) out] w) =
     drop (Suc (length (results w)) - 50)
       (results w @ [measured \<lparr>pid = length (requests w), via = transport_of w, started = clock w\<rparr>
                       (clock w + int d) out])"
proof -
  let ?w0 = "stopMonitoring w"
  let ?w1 = "startMonitoring ov ?w0"
  have a: "results ?w1 = results w" "savePingCalls ?w1 = savePingCalls w"
    by (simp_all add: startMonitoring_fields stopMonitoring_fields)
  obtain ms where ms: "results (run evs ?w1) = foldl keep_last_50 (results ?w1) (map fst ms)"
      "savePingCalls (run evs ?w1) = savePingCalls ?w1 @ ms"
    using pushes_run [of evs ?w1] by blast
  have new: "drop (length (savePingCalls w)) (savePingCalls (run evs ?w1)) = ms"
    and old: "take (length (savePingCalls w)) (savePingCalls (run evs ?w1)) = savePingCalls w"
    by (simp_all add: ms a)
  have general: "results (run evs ?w1) =
      drop (length (results w @ map fst ms) - 50) (results w @ map fst ms)"
    unfolding ms(1) a by (rule foldl_keep_last_50_from [OF assms(1)])
  have wf0: "well_formed ?w0" using assms(2) by (rule well_formed_stopMonitoring)
  have iv: "(case ov of Some ms \<Rightarrow> ms | None \<Rightarrow> settingsInterval ?w0 * 1000) = int P"
    using assms(3) by (cases ov) (simp_all add: stopMonitoring_fields)
  have ar: "armed (length (subscriptions ?w0)) P 0 ?w1"
    using wf0 iv by (rule armed_startMonitoring)
  note c = probe_cycle [OF ar assms(4) assms(6) assms(5), of out]
  have f1: "requests ?w1 = requests w" "clock ?w1 = clock w" "transport_of ?w1 = transport_of w"
    by (simp_all add: startMonitoring_fields stopMonitoring_fields)
  have "results (settle (length (requests w)) out (step (Advance d) ?w1)) =
        keep_last_50 (results w)
          (measured \<lparr>pid = length (requests w), via = transport_of w, started = clock w\<rparr>
             (clock w + int d) out)"
    using c(2) by (simp add: f1 a)
  then have cycle: "results (run [Stop, Start ov, Advance d, Settle (length (requests w)) out] w) =
     drop (Suc (length (results w)) - 50)
       (results w @ [measured \<lparr>pid = length (requests w), via = transport_of w, started = clock w\<rparr>
                       (clock w + int d) out])"
    by (simp add: run_Cons run_Nil keep_last_50_eq)
  show ?thesis
    using general cycle old
    by (simp only: new a stopMonitoring_fields startMonitoring_fields simp_thms)
qed

theorem restart_keeps_history_witness:
  "length (results (run [Start (Some 2), Advance 0, Settle 0 (Resolved 7)] (initial_world None))) \<le> 50 \<and>
   results (run [Stop, Start None, Advance 1, Settle 1 (Rejected Timeout)]
              (run [Start (Some 2), Advance 0, Settle 0 (Resolved 7)] (initial_world None))) =
     [\<lparr>latencyMs = Some 7, timestamp = 0, status = StatusOk\<rparr>,
      \<lparr>latencyMs = None, timestamp = 1, status = StatusError\<rparr>] \<and>
   results (run [Advance 1, Settle 1 (Rejected Timeout)]
              (startMonitoring None (stopMonitoring
                 (run [Start (Some 2), Advance 0, Settle 0 (Resolved 7)] (initial_world None))))) =
     [\<lparr>latencyMs = Some 7, timestamp = 0, status = StatusOk\<rparr>,
      \<lparr>latencyMs = None, timestamp = 1, status = StatusError\<rparr>]"
proof -
  let ?W = "run [Start (Some 2), Advance 0, Settle 0 (Resolved 7)] (initial_world None)"
  have rW: "results ?W = [\<lparr>latencyMs = Some 7, timestamp = 0, status = StatusOk\<rparr>]"
    by code_simp
  have qW: "requests ?W = [(0, TauriPing, ''8.8.8.8'')]"
    by code_simp
  have sW: "savePingCalls ?W = [(\<lparr>latencyMs = Some 7, timestamp = 0, status = StatusOk\<rparr>, ''8.8.8.8'')]"
    by code_simp
  have eW: "clock ?W = 0" "settingsInterval ?W = 5" "transport_of ?W = TauriPing"
    by code_simp+
  have sF: "savePingCalls (run [Advance 1, Settle 1 (Rejected Timeout)]
              (startMonitoring None (stopMonitoring ?W))) =
     [(\<lparr>latencyMs = Some 7, timestamp = 0, status = StatusOk\<rparr>, ''8.8.8.8''),
      (\<lparr>latencyMs = None, timestamp = 1, status = StatusError\<rparr>, ''8.8.8.8'')]"
    by code_simp
  have le: "length (results ?W) \<le> 50" by (simp add: rW)
  have wf: "well_formed ?W" by (rule well_formed_run) (rule well_formed_initial_world)
  have iv: "(case None of Some ms \<Rightarrow> ms | None \<Rightarrow> settingsInterval ?W * 1000) = int 5000"
    by (simp add: eW)
  note t = restart_keeps_history [OF le wf iv, of 1,
      where evs = "[Advance 1, Settle 1 (Rejected Timeout)]" and out = "Rejected Timeout"]
  show ?thesis
    using t le unfolding sF
    by (simp add: rW qW sW eW measured_def error_result_def)
qed

end
